theory Spec2Isabelle
  imports Complex_Main
begin

section \<open>Strings and characters\<close>

text \<open>
  The log analyzer works on the lines of one decoded log file. A line is modelled as a
  \<^typ>\<open>string\<close>; one \<^typ>\<open>char\<close> stands for one code unit of the source string, so
  the model covers the code units below 256. The character classes below are the
  classes of the source's regular expressions cut down to that range.
\<close>

definition isDigit :: "char \<Rightarrow> bool" where
  "isDigit c = (c \<in> set ''0123456789'')"

text \<open>The class \<open>\s\<close>, which is also what \<open>trim\<close> strips: tab, line feed, vertical tab,
  form feed, carriage return, space and the no-break space.\<close>

definition isSpace :: "char \<Rightarrow> bool" where
  "isSpace c = (c \<in> set [CHR 0x09, CHR 0x0A, CHR 0x0B, CHR 0x0C, CHR 0x0D, CHR 0x20, CHR 0xA0])"

text \<open>The characters the dot does not match: line feed and carriage return.\<close>

definition isLineTerminator :: "char \<Rightarrow> bool" where
  "isLineTerminator c = (c \<in> set [CHR 0x0A, CHR 0x0D])"

definition lowerLetters :: string where
  "lowerLetters = ''abcdefghijklmnopqrstuvwxyz''"

definition upperLetters :: string where
  "upperLetters = ''ABCDEFGHIJKLMNOPQRSTUVWXYZ''"

text \<open>The class \<open>\w\<close>, used by the word boundary \<open>\b\<close>.\<close>

definition isWordChar :: "char \<Rightarrow> bool" where
  "isWordChar c = (c \<in> set lowerLetters \<or> c \<in> set upperLetters \<or> isDigit c \<or> c = CHR ''_'')"

text \<open>
  Case folding of the \<open>i\<close> flag. Every pattern letter of the source is an ASCII letter,
  and a character above 127 never folds to an ASCII one, so folding the ASCII letters
  is all that a comparison with a pattern letter needs.
\<close>

definition canonicalize :: "char \<Rightarrow> char" where
  "canonicalize c = (case map_of (zip lowerLetters upperLetters) c of Some u \<Rightarrow> u | None \<Rightarrow> c)"

definition digitVal :: "char \<Rightarrow> nat" where
  "digitVal c = of_char c - 48"

text \<open>
  \<open>parseInt\<close> on the strings the source passes to it, which are captures of \<open>\d+\<close> or
  pieces of a checked timestamp: the leading decimal digits are read, and a string with
  no leading digit gives NaN, here \<open>None\<close>. The result is the exact natural;
  the source's is the double nearest to it, the same number up to \<open>2 ^ 53\<close> and
  a rounding of it beyond.
\<close>

definition parseInt :: "string \<Rightarrow> nat option" where
  "parseInt s = (let ds = takeWhile isDigit s in
     if ds = [] then None else Some (foldl (\<lambda>a c. 10 * a + digitVal c) 0 ds))"

definition trim :: "string \<Rightarrow> string" where
  "trim s = rev (dropWhile isSpace (rev (dropWhile isSpace s)))"

text \<open>\<open>String.prototype.includes\<close>: the needle occurs somewhere in the line.\<close>

fun includesStr :: "string \<Rightarrow> string \<Rightarrow> bool" where
  "includesStr [] needle = (needle = [])"
| "includesStr (c # cs) needle = (take (length needle) (c # cs) = needle \<or> includesStr cs needle)"

text \<open>\<open>Array.prototype.join\<close> with a line feed as separator.\<close>

fun joinLines :: "string list \<Rightarrow> string" where
  "joinLines [] = []"
| "joinLines [l] = l"
| "joinLines (l # m # ls) = l @ CHR 0x0A # joinLines (m # ls)"

text \<open>\<open>String.prototype.split\<close> with a one-character separator class.\<close>

fun splitOn :: "(char \<Rightarrow> bool) \<Rightarrow> string \<Rightarrow> string list" where
  "splitOn sep [] = [[]]"
| "splitOn sep (c # cs) =
     (if sep c then [] # splitOn sep cs
      else (case splitOn sep cs of p # ps \<Rightarrow> (c # p) # ps | [] \<Rightarrow> [[c]]))"

section \<open>Regular expressions\<close>

text \<open>
  The source extracts every field with a regular expression literal. The patterns it
  uses are built from literals, character classes, greedy quantifiers over one class,
  optional groups, capture groups, the anchors and the word boundary; this is the
  syntax below. A pattern of the source is written with the same pieces in the same
  order.
\<close>

datatype cclass =
    Digit
  | Space
  | NonSpace
  | AnyChar
  | NoneOf string
  | OneOf string

fun inClass :: "cclass \<Rightarrow> char \<Rightarrow> bool" where
  "inClass Digit c = isDigit c"
| "inClass Space c = isSpace c"
| "inClass NonSpace c = (\<not> isSpace c)"
| "inClass AnyChar c = (\<not> isLineTerminator c)"
| "inClass (NoneOf cs) c = (c \<notin> set cs)"
| "inClass (OneOf cs) c = (c \<in> set cs)"

datatype regex =
    Lit string
  | Cls cclass
  | Star cclass
  | Plus cclass
  | Rep nat cclass
  | Opt regex
  | Grp nat regex
  | Seq regex regex
  | Bol
  | Eol
  | WordB

fun cat :: "regex list \<Rightarrow> regex" where
  "cat [] = Lit []"
| "cat [r] = r"
| "cat (r # rs) = Seq r (cat rs)"

text \<open>
  A matcher state: the input already passed (last character first), the input still
  ahead, and the captures closed so far.
\<close>

record mstate =
  passed :: string
  ahead :: string
  caps :: "(nat \<times> string) list"

definition chEq :: "bool \<Rightarrow> char \<Rightarrow> char \<Rightarrow> bool" where
  "chEq ci a b = (if ci then canonicalize a = canonicalize b else a = b)"

fun litStep :: "bool \<Rightarrow> string \<Rightarrow> string \<Rightarrow> string \<Rightarrow> (string \<times> string) option" where
  "litStep ci [] pre rest = Some (pre, rest)"
| "litStep ci (w # ws) pre [] = None"
| "litStep ci (w # ws) pre (x # xs) = (if chEq ci w x then litStep ci ws (x # pre) xs else None)"

text \<open>
  All the ways a greedy \<open>c*\<close> can consume input, the longest first, which is the order
  in which a backtracking matcher tries them.
\<close>

fun starSplits :: "cclass \<Rightarrow> string \<Rightarrow> string \<Rightarrow> (string \<times> string) list" where
  "starSplits c pre [] = [(pre, [])]"
| "starSplits c pre (x # xs) =
     (if inClass c x then starSplits c (x # pre) xs @ [(pre, x # xs)] else [(pre, x # xs)])"

fun plusSplits :: "cclass \<Rightarrow> string \<Rightarrow> string \<Rightarrow> (string \<times> string) list" where
  "plusSplits c pre [] = []"
| "plusSplits c pre (x # xs) = (if inClass c x then starSplits c (x # pre) xs else [])"

fun repStep :: "nat \<Rightarrow> cclass \<Rightarrow> string \<Rightarrow> string \<Rightarrow> (string \<times> string) option" where
  "repStep 0 c pre rest = Some (pre, rest)"
| "repStep (Suc n) c pre [] = None"
| "repStep (Suc n) c pre (x # xs) = (if inClass c x then repStep n c (x # pre) xs else None)"

definition moveTo :: "mstate \<Rightarrow> string \<times> string \<Rightarrow> mstate" where
  "moveTo s p = s\<lparr>passed := fst p, ahead := snd p\<rparr>"

definition isWordBoundary :: "mstate \<Rightarrow> bool" where
  "isWordBoundary s =
     ((case passed s of [] \<Rightarrow> False | a # _ \<Rightarrow> isWordChar a)
      \<noteq> (case ahead s of [] \<Rightarrow> False | b # _ \<Rightarrow> isWordChar b))"

text \<open>
  \<open>steps ci r s\<close> lists every state in which a match of \<open>r\<close> begun in \<open>s\<close> can end, in
  the order of a backtracking matcher; the head of the list is the match the matcher
  returns. \<open>ci\<close> is the \<open>i\<close> flag.
\<close>

fun steps :: "bool \<Rightarrow> regex \<Rightarrow> mstate \<Rightarrow> mstate list" where
  "steps ci (Lit w) s =
     (case litStep ci w (passed s) (ahead s) of None \<Rightarrow> [] | Some p \<Rightarrow> [moveTo s p])"
| "steps ci (Cls c) s =
     (case repStep 1 c (passed s) (ahead s) of None \<Rightarrow> [] | Some p \<Rightarrow> [moveTo s p])"
| "steps ci (Star c) s = map (moveTo s) (starSplits c (passed s) (ahead s))"
| "steps ci (Plus c) s = map (moveTo s) (plusSplits c (passed s) (ahead s))"
| "steps ci (Rep n c) s =
     (case repStep n c (passed s) (ahead s) of None \<Rightarrow> [] | Some p \<Rightarrow> [moveTo s p])"
| "steps ci (Opt r) s = steps ci r s @ [s]"
| "steps ci (Grp i r) s =
     map (\<lambda>s'. s'\<lparr>caps := (i, rev (take (length (passed s') - length (passed s)) (passed s')))
                            # caps s'\<rparr>)
         (steps ci r s)"
| "steps ci (Seq a b) s = concat (map (steps ci b) (steps ci a s))"
| "steps ci Bol s = (if passed s = [] then [s] else [])"
| "steps ci Eol s = (if ahead s = [] then [s] else [])"
| "steps ci WordB s = (if isWordBoundary s then [s] else [])"

text \<open>The search for the leftmost start at which the pattern matches.\<close>

fun searchFrom :: "bool \<Rightarrow> regex \<Rightarrow> string \<Rightarrow> string \<Rightarrow> mstate option" where
  "searchFrom ci r pre [] =
     (case steps ci r \<lparr>passed = pre, ahead = [], caps = []\<rparr> of s # _ \<Rightarrow> Some s | [] \<Rightarrow> None)"
| "searchFrom ci r pre (c # cs) =
     (case steps ci r \<lparr>passed = pre, ahead = c # cs, caps = []\<rparr> of
        s # _ \<Rightarrow> Some s
      | [] \<Rightarrow> searchFrom ci r (c # pre) cs)"

text \<open>\<open>line.match(re)\<close> for a pattern without the \<open>g\<close> flag, and \<open>re.test(line)\<close>.\<close>

definition rmatch :: "bool \<Rightarrow> regex \<Rightarrow> string \<Rightarrow> mstate option" where
  "rmatch ci r l = searchFrom ci r [] l"

definition rtest :: "bool \<Rightarrow> regex \<Rightarrow> string \<Rightarrow> bool" where
  "rtest ci r l = (rmatch ci r l \<noteq> None)"

text \<open>Capture \<open>i\<close> of a match; every group of the source's patterns that is read takes
  part in the match, so the capture is there.\<close>

definition grp :: "mstate \<Rightarrow> nat \<Rightarrow> string" where
  "grp m i = (case map_of (caps m) i of Some g \<Rightarrow> g | None \<Rightarrow> [])"

section \<open>Timestamps\<close>

record lineRec =
  line :: string
  timestamp :: "string option"
  originalIndex :: nat

definition timeShape :: "regex list" where
  "timeShape = [Rep 2 Digit, Lit '':'', Rep 2 Digit, Lit '':'', Rep 2 Digit, Lit ''.'', Rep 3 Digit]"

definition LOG_TIMESTAMP_REGEX :: regex where
  "LOG_TIMESTAMP_REGEX = cat [Bol, Plus NonSpace, Plus Space, Plus Digit, Plus Space, Grp 1 (cat timeShape)]"

definition extractTimestampFromLogLine :: "string \<Rightarrow> string option" where
  "extractTimestampFromLogLine l =
     (case rmatch False LOG_TIMESTAMP_REGEX l of Some m \<Rightarrow> Some (grp m 1) | None \<Rightarrow> None)"

definition timeStrRegex :: regex where
  "timeStrRegex = cat (Bol # timeShape @ [Eol])"

text \<open>
  The seconds count is a rational here: hours, minutes, seconds and a thousandth of
  the milliseconds, summed exactly. The source computes it in double precision; the
  counts are multiples of a thousandth below 360000, which doubles keep apart and in
  order, so comparisons of two counts agree. The captures that \<open>parseInt\<close> reads
  are likewise taken as exact naturals.
\<close>

definition timeToSeconds :: "string \<Rightarrow> rat" where
  "timeToSeconds timeStr =
     (if timeStr = [] \<or> \<not> rtest False timeStrRegex timeStr then 0
      else (case map parseInt (splitOn (inClass (OneOf '':.'')) timeStr) of
              [Some h, Some m, Some s, Some ms] \<Rightarrow>
                of_nat h * 3600 + of_nat m * 60 + of_nat s + of_nat ms / 1000
            | _ \<Rightarrow> 0))"

text \<open>The records the correlators read: every line with its timestamp and index.\<close>

definition linesWithTimestamps :: "string list \<Rightarrow> lineRec list" where
  "linesWithTimestamps ls =
     map (\<lambda>(i, l). \<lparr>line = l, timestamp = extractTimestampFromLogLine l, originalIndex = i\<rparr>)
         (enumerate 0 ls)"

section \<open>Event-count parser\<close>

definition errorRegex :: regex where
  "errorRegex = cat [WordB, Lit ''error'', WordB]"

definition warnRegex :: regex where
  "warnRegex = cat [WordB, Lit ''warn'', Opt (Lit ''ing''), WordB]"

record logStatistics =
  errorCount :: nat
  warnCount :: nat

text \<open>The body of the loop over the lines: a line can raise both counters.\<close>

definition countLine :: "logStatistics \<Rightarrow> string \<Rightarrow> logStatistics" where
  "countLine st l =
     (let st1 = (if rtest True errorRegex l then st\<lparr>errorCount := errorCount st + 1\<rparr> else st)
      in if rtest True warnRegex l then st1\<lparr>warnCount := warnCount st1 + 1\<rparr> else st1)"

definition parseAndCountLogEvents :: "string list \<Rightarrow> logStatistics" where
  "parseAndCountLogEvents ls = foldl countLine \<lparr>errorCount = 0, warnCount = 0\<rparr> ls"

section \<open>Chunked display of the filtered lines\<close>

definition LINES_PER_CHUNK_DISPLAY :: nat where
  "LINES_PER_CHUNK_DISPLAY = 500"

datatype logFilter = FilterError | FilterWarn

text \<open>
  The part of the component state that paging reads and writes. \<open>currentLogFullFile\<close>
  records whether a file is selected; the active filter is \<open>None\<close> for no filter.
\<close>

record viewState =
  currentLogFullFile :: bool
  displayedLogContent :: string
  allLoadedLogLines :: "string list"
  filteredAndLoadedLines :: "string list"
  currentDisplayEndIndex :: nat
  hasMoreLogContent :: bool
  activeFilter :: "logFilter option"
  isLogLoading :: bool
  isLogLoadingMore :: bool

definition applyFilter :: "logFilter option \<Rightarrow> string list \<Rightarrow> string list" where
  "applyFilter f ls =
     (case f of
        Some FilterError \<Rightarrow> filter (rtest True errorRegex) ls
      | Some FilterWarn \<Rightarrow> filter (rtest True warnRegex) ls
      | None \<Rightarrow> ls)"

text \<open>\<open>Array.prototype.slice\<close> with two indices that are not negative.\<close>

definition slice :: "nat \<Rightarrow> nat \<Rightarrow> 'a list \<Rightarrow> 'a list" where
  "slice i j xs = take (j - i) (drop i xs)"

text \<open>
  \<open>displayLogChunk\<close> as a state transformer. A load-more call raises
  \<open>isLogLoadingMore\<close> and lowers it again in a deferred callback; the state returned
  is the one after that callback.
\<close>

definition displayLogChunk :: "string list \<Rightarrow> logFilter option \<Rightarrow> bool \<Rightarrow> viewState \<Rightarrow> viewState" where
  "displayLogChunk sourceLinesToUse filterToApplyToSource isCompletelyNewDisplay st =
     (let linesForCurrentOperation =
            (if isCompletelyNewDisplay then applyFilter filterToApplyToSource sourceLinesToUse
             else filteredAndLoadedLines st);
          startIndexForCurrentOperation =
            (if isCompletelyNewDisplay then 0 else currentDisplayEndIndex st);
          endIndexForCurrentOperation =
            min (startIndexForCurrentOperation + LINES_PER_CHUNK_DISPLAY)
                (length linesForCurrentOperation);
          chunkTextArray =
            slice startIndexForCurrentOperation endIndexForCurrentOperation linesForCurrentOperation;
          prev = displayedLogContent st
      in st\<lparr>filteredAndLoadedLines := linesForCurrentOperation,
             displayedLogContent :=
               (if isCompletelyNewDisplay then joinLines chunkTextArray
                else (if prev \<noteq> [] then prev @ [CHR 0x0A] else []) @ joinLines chunkTextArray),
             currentDisplayEndIndex := endIndexForCurrentOperation,
             hasMoreLogContent := (endIndexForCurrentOperation < length linesForCurrentOperation),
             isLogLoadingMore := (if isCompletelyNewDisplay then isLogLoadingMore st else False)\<rparr>)"

definition handleLoadMoreLogContent :: "viewState \<Rightarrow> viewState" where
  "handleLoadMoreLogContent st =
     (if currentLogFullFile st \<and> hasMoreLogContent st \<and> \<not> isLogLoading st \<and> \<not> isLogLoadingMore st
      then displayLogChunk (allLoadedLogLines st) (activeFilter st) False st
      else st)"

section \<open>Memory usage parser\<close>

definition memoryRegex :: regex where
  "memoryRegex = cat [Grp 1 (cat timeShape), Star AnyChar, Lit ''XQ Used Mem:'', Star Space,
                      Grp 2 (Plus Digit), Star Space, Lit ''MB'']"

record memoryUsageDataPoint =
  memTimestamp :: string
  memoryMB :: nat
  originalLogTime :: string

text \<open>The body of the loop over the lines; the data points are appended in file order.\<close>

definition memoryLine :: "memoryUsageDataPoint list \<Rightarrow> string \<Rightarrow> memoryUsageDataPoint list" where
  "memoryLine memoryData l =
     (if includesStr l ''XQ Used Mem:'' then
        (case rmatch True memoryRegex l of
           None \<Rightarrow> memoryData
         | Some m \<Rightarrow>
             if grp m 1 \<noteq> [] \<and> grp m 2 \<noteq> [] then
               (case parseInt (grp m 2) of
                  None \<Rightarrow> memoryData
                | Some memMB \<Rightarrow>
                    memoryData @ [\<lparr>memTimestamp = grp m 1, memoryMB = memMB, originalLogTime = grp m 1\<rparr>])
             else memoryData)
      else memoryData)"

definition parseMemoryUsage :: "string list \<Rightarrow> memoryUsageDataPoint list" where
  "parseMemoryUsage ls = foldl memoryLine [] ls"

section \<open>System info snapshots\<close>

datatype error = TypeError

text \<open>A line record whose timestamp is not null.\<close>

record stampedLine =
  sLine :: string
  sTimestamp :: string
  sOriginalIndex :: nat

definition linesWithValidTimestamps :: "lineRec list \<Rightarrow> stampedLine list" where
  "linesWithValidTimestamps lws =
     List.map_filter
       (\<lambda>item. case timestamp item of
                  None \<Rightarrow> None
                | Some t \<Rightarrow> Some \<lparr>sLine = line item, sTimestamp = t, sOriginalIndex = originalIndex item\<rparr>)
       lws"

definition apVersionRegex :: regex where
  "apVersionRegex = cat [Lit ''AP Version:'', Star Space, Lit ''['', Grp 1 (Plus (NoneOf '']'')), Lit '']'']"

definition cpuRegex :: regex where
  "cpuRegex = cat [Lit ''CPU:'', Star Space, Grp 1 (Plus AnyChar)]"

definition memRegex :: regex where
  "memRegex = cat [Lit ''Total Physical Mem:'', Star Space, Grp 1 (Plus NonSpace)]"

definition osRegex :: regex where
  "osRegex = cat [Lit ''OS Version:'', Star Space, Grp 1 (Plus AnyChar)]"

definition dpiRegex :: regex where
  "dpiRegex = cat [Lit ''DPI X:'', Grp 1 (Plus Digit), Lit '', Y:'', Grp 2 (Plus Digit)]"

definition monitorRegex :: regex where
  "monitorRegex =
     cat [Lit ''Monitor'', Grp 1 (Plus Digit), Star Space, Lit '':'', Star Space,
          Grp 2 (cat [Lit ''monitor('', Plus (NoneOf '')''), Lit '')'',
                      Opt (cat [Lit '','', Star Space, Lit ''work('', Plus (NoneOf '')''), Lit '')''])])]"

definition monitorResolutionRegex :: regex where
  "monitorResolutionRegex =
     cat [Lit ''monitor('', Plus (NoneOf '',''), Lit '','', Plus (NoneOf '',''), Lit '','', Star Space,
          Grp 1 (Plus Digit), Lit '','', Star Space, Grp 2 (Plus Digit), Lit '')'']"

definition serverGroupNameRegex :: regex where
  "serverGroupNameRegex = cat [Lit ''ServerGroupName:'', Star Space, Grp 1 (Plus (NoneOf '';''))]"

record 'a valueWithTimestamp =
  vwtValue :: 'a
  vwtTimestamp :: string

record monitorInfo =
  monId :: string
  resolution :: string
  details :: string

record systemInfoSnapshot =
  anchorTimestamp :: string
  apVersion :: "string valueWithTimestamp option"
  cpuModel :: "string valueWithTimestamp option"
  totalMemory :: "string valueWithTimestamp option"
  osVersion :: "string valueWithTimestamp option"
  dpi :: "string valueWithTimestamp option"
  monitors :: "monitorInfo list valueWithTimestamp option"
  allDatacenterConnections :: "string valueWithTimestamp list"

text \<open>Lower-casing of the ASCII letters, which decides the comparison with \<open>no data\<close>.\<close>

definition toLowerCase :: "string \<Rightarrow> string" where
  "toLowerCase s =
     map (\<lambda>c. case map_of (zip upperLetters lowerLetters) c of Some l \<Rightarrow> l | None \<Rightarrow> c) s"

definition datacenterLine ::
  "string valueWithTimestamp list \<Rightarrow> stampedLine \<Rightarrow> string valueWithTimestamp list" where
  "datacenterLine acc item =
     (case rmatch True serverGroupNameRegex (sLine item) of
        None \<Rightarrow> acc
      | Some sgMatch \<Rightarrow>
          if grp sgMatch 1 \<noteq> [] then
            (let datacenterName = trim (grp sgMatch 1) in
               if datacenterName \<noteq> [] \<and> toLowerCase datacenterName \<noteq> ''no data''
               then acc @ [\<lparr>vwtValue = datacenterName, vwtTimestamp = sTimestamp item\<rparr>]
               else acc)
          else acc)"

definition collectedDatacenterConnections :: "stampedLine list \<Rightarrow> string valueWithTimestamp list" where
  "collectedDatacenterConnections ltv = foldl datacenterLine [] ltv"

text \<open>\<open>Array.prototype.findIndex\<close>; \<open>None\<close> stands for the result \<open>-1\<close>.\<close>

fun findIndex :: "('a \<Rightarrow> bool) \<Rightarrow> 'a list \<Rightarrow> nat option" where
  "findIndex P [] = None"
| "findIndex P (x # xs) =
     (if P x then Some 0 else (case findIndex P xs of None \<Rightarrow> None | Some i \<Rightarrow> Some (Suc i)))"

definition isSystemInfoLine :: "string \<Rightarrow> bool" where
  "isSystemInfoLine l =
     (rtest False cpuRegex l \<or> rtest False memRegex l \<or> rtest False osRegex l
      \<or> rtest False dpiRegex l \<or> rtest False monitorRegex l)"

text \<open>The anchors of the primary pass: the indices of the lines with an AP Version.\<close>

definition primaryAnchorIndices :: "stampedLine list \<Rightarrow> nat list" where
  "primaryAnchorIndices ltv =
     map fst (filter (\<lambda>(index, item). rtest False apVersionRegex (sLine item)) (enumerate 0 ltv))"

text \<open>
  The fallback when the primary pass finds nothing: the timestamp of the first line
  with any system information, then the first line with that timestamp and system
  information. Were \<open>findIndex\<close> to find none, the index \<open>-1\<close> would be pushed, and the
  read of that line's timestamp in the loop over the anchors would throw.
\<close>

definition fallbackAnchorIndices :: "stampedLine list \<Rightarrow> error + nat list" where
  "fallbackAnchorIndices ltv =
     (case find (\<lambda>item. isSystemInfoLine (sLine item)) ltv of
        None \<Rightarrow> Inr []
      | Some first \<Rightarrow>
          let tempAnchorTimestamp = sTimestamp first in
            if tempAnchorTimestamp \<noteq> [] then
              (case findIndex (\<lambda>item. sTimestamp item = tempAnchorTimestamp
                                      \<and> isSystemInfoLine (sLine item)) ltv of
                 None \<Rightarrow> Inl TypeError
               | Some i \<Rightarrow> Inr [i])
            else Inr [])"

definition anchorIndices :: "stampedLine list \<Rightarrow> error + nat list" where
  "anchorIndices ltv =
     (let primary = primaryAnchorIndices ltv in
        if primary = [] \<and> ltv \<noteq> [] then fallbackAnchorIndices ltv else Inr primary)"

text \<open>
  The update of one scalar field inside the window: a matching line replaces the kept
  value when there is none yet or when its time is not earlier than the kept one's.
\<close>

definition keepLatest ::
  "string valueWithTimestamp option \<Rightarrow> string option \<Rightarrow> string \<Rightarrow> string valueWithTimestamp option" where
  "keepLatest current matched ts =
     (case matched of
        None \<Rightarrow> current
      | Some v \<Rightarrow>
          (case current of
             None \<Rightarrow> Some \<lparr>vwtValue = v, vwtTimestamp = ts\<rparr>
           | Some cur \<Rightarrow>
               if timeToSeconds ts \<ge> timeToSeconds (vwtTimestamp cur)
               then Some \<lparr>vwtValue = v, vwtTimestamp = ts\<rparr>
               else current))"

definition cpuValue :: "string \<Rightarrow> string option" where
  "cpuValue l = map_option (\<lambda>m. trim (grp m 1)) (rmatch False cpuRegex l)"

definition memValue :: "string \<Rightarrow> string option" where
  "memValue l = map_option (\<lambda>m. trim (grp m 1)) (rmatch False memRegex l)"

definition osValue :: "string \<Rightarrow> string option" where
  "osValue l = map_option (\<lambda>m. trim (grp m 1)) (rmatch False osRegex l)"

definition dpiValue :: "string \<Rightarrow> string option" where
  "dpiValue l = map_option (\<lambda>m. ''X:'' @ grp m 1 @ '', Y:'' @ grp m 2) (rmatch False dpiRegex l)"

record windowState =
  currentSnapshot :: systemInfoSnapshot
  foundMonitors :: "monitorInfo list"
  monitorsTimestamp :: "string option"

text \<open>
  The monitor part of the loop body. The entry is stored under the id \<open>Monitor\<close>
  followed by the digits, and the search for an existing entry compares the stored id
  with the digits alone, as the source does.
\<close>

definition monitorStep :: "windowState \<Rightarrow> stampedLine \<Rightarrow> windowState" where
  "monitorStep ws item =
     (case rmatch False monitorRegex (sLine item) of
        None \<Rightarrow> ws
      | Some monitorMatch \<Rightarrow>
          let monitorId = grp monitorMatch 1;
              monitorDetails = grp monitorMatch 2;
              resolution =
                (case rmatch False monitorResolutionRegex monitorDetails of
                   None \<Rightarrow> ''N/A''
                 | Some resMatch \<Rightarrow> grp resMatch 1 @ ''x'' @ grp resMatch 2);
              entry = \<lparr>monId = ''Monitor'' @ monitorId, resolution = resolution,
                       details = monitorDetails\<rparr>;
              found =
                (case findIndex (\<lambda>m. monId m = monitorId) (foundMonitors ws) of
                   None \<Rightarrow> foundMonitors ws @ [entry]
                 | Some existingMonitorIndex \<Rightarrow> (foundMonitors ws)[existingMonitorIndex := entry]);
              mts =
                (case monitorsTimestamp ws of
                   None \<Rightarrow> Some (sTimestamp item)
                 | Some t \<Rightarrow>
                     if t = [] \<or> timeToSeconds (sTimestamp item) > timeToSeconds t
                     then Some (sTimestamp item) else Some t)
          in ws\<lparr>foundMonitors := found, monitorsTimestamp := mts\<rparr>)"

definition windowStep :: "windowState \<Rightarrow> stampedLine \<Rightarrow> windowState" where
  "windowStep ws item =
     (let snap = currentSnapshot ws;
          snap1 = snap\<lparr>cpuModel := keepLatest (cpuModel snap) (cpuValue (sLine item)) (sTimestamp item)\<rparr>;
          snap2 = snap1\<lparr>totalMemory := keepLatest (totalMemory snap1) (memValue (sLine item)) (sTimestamp item)\<rparr>;
          snap3 = snap2\<lparr>osVersion := keepLatest (osVersion snap2) (osValue (sLine item)) (sTimestamp item)\<rparr>;
          snap4 = snap3\<lparr>dpi := keepLatest (dpi snap3) (dpiValue (sLine item)) (sTimestamp item)\<rparr>
      in monitorStep (ws\<lparr>currentSnapshot := snap4\<rparr>) item)"

text \<open>The backward scan for an AP Version, over the lines from the last to the first.\<close>

fun scanApVersion :: "stampedLine list \<Rightarrow> string valueWithTimestamp option" where
  "scanApVersion [] = None"
| "scanApVersion (lineData # earlier) =
     (case rmatch False apVersionRegex (sLine lineData) of
        Some potentialApMatch \<Rightarrow>
          Some \<lparr>vwtValue = grp potentialApMatch 1, vwtTimestamp = sTimestamp lineData\<rparr>
      | None \<Rightarrow> scanApVersion earlier)"

definition windowLines :: "stampedLine list \<Rightarrow> nat \<Rightarrow> stampedLine list" where
  "windowLines ltv anchorIndex = slice (nat (max 0 (int anchorIndex - 50))) (anchorIndex + 1) ltv"

text \<open>
  Modelled from the platform: \<open>localeCompare\<close> with the \<open>numeric\<close> option, on ids that
  are \<open>Monitor\<close> followed by digits, orders by the number the digits spell. The sort is
  stable.
\<close>

definition monitorNumber :: "monitorInfo \<Rightarrow> nat" where
  "monitorNumber m = (case parseInt (drop 7 (monId m)) of Some n \<Rightarrow> n | None \<Rightarrow> 0)"

definition sortMonitors :: "monitorInfo list \<Rightarrow> monitorInfo list" where
  "sortMonitors ms = sort_key monitorNumber ms"

text \<open>
  The body of the loop over the anchors, up to the test that decides whether the
  snapshot is kept. \<open>anchorCount\<close> is the length of the anchor list.
\<close>

definition anchorSnapshot ::
  "stampedLine list \<Rightarrow> string valueWithTimestamp list \<Rightarrow> nat \<Rightarrow> nat \<Rightarrow> error + systemInfoSnapshot" where
  "anchorSnapshot ltv dcs anchorCount anchorIndex =
     (if anchorIndex \<ge> length ltv then Inl TypeError
      else
        let anchorLineData = ltv ! anchorIndex;
            ap =
              (case rmatch False apVersionRegex (sLine anchorLineData) of
                 Some apMatch \<Rightarrow>
                   Some \<lparr>vwtValue = grp apMatch 1, vwtTimestamp = sTimestamp anchorLineData\<rparr>
               | None \<Rightarrow>
                   if anchorCount = 1 \<and> ltv \<noteq> [] then scanApVersion (rev ltv) else None);
            snapshot0 =
              \<lparr>anchorTimestamp = sTimestamp anchorLineData, apVersion = ap, cpuModel = None,
               totalMemory = None, osVersion = None, dpi = None,
               monitors = Some \<lparr>vwtValue = [], vwtTimestamp = []\<rparr>,
               allDatacenterConnections = dcs\<rparr>;
            ws = foldl windowStep
                   \<lparr>currentSnapshot = snapshot0, foundMonitors = [], monitorsTimestamp = None\<rparr>
                   (windowLines ltv anchorIndex);
            snap = currentSnapshot ws
        in Inr (if foundMonitors ws \<noteq> [] then
                  snap\<lparr>monitors :=
                         Some \<lparr>vwtValue = sortMonitors (foundMonitors ws),
                               vwtTimestamp =
                                 (case monitorsTimestamp ws of
                                    None \<Rightarrow> anchorTimestamp snap
                                  | Some t \<Rightarrow> if t \<noteq> [] then t else anchorTimestamp snap)\<rparr>\<rparr>
                else snap\<lparr>monitors := None\<rparr>))"

definition hasData :: "systemInfoSnapshot \<Rightarrow> bool" where
  "hasData snap =
     (apVersion snap \<noteq> None \<or> cpuModel snap \<noteq> None \<or> totalMemory snap \<noteq> None
      \<or> osVersion snap \<noteq> None \<or> dpi snap \<noteq> None
      \<or> (case monitors snap of None \<Rightarrow> False | Some ms \<Rightarrow> vwtValue ms \<noteq> []))"

fun pushSnapshots ::
  "stampedLine list \<Rightarrow> string valueWithTimestamp list \<Rightarrow> nat \<Rightarrow> nat list
   \<Rightarrow> systemInfoSnapshot list \<Rightarrow> error + systemInfoSnapshot list" where
  "pushSnapshots ltv dcs anchorCount [] snapshots = Inr snapshots"
| "pushSnapshots ltv dcs anchorCount (a # rest) snapshots =
     (case anchorSnapshot ltv dcs anchorCount a of
        Inl e \<Rightarrow> Inl e
      | Inr snap \<Rightarrow>
          pushSnapshots ltv dcs anchorCount rest
            (if hasData snap then snapshots @ [snap] else snapshots))"

definition parseSystemInfoForDA :: "lineRec list \<Rightarrow> error + systemInfoSnapshot list" where
  "parseSystemInfoForDA logLinesWithTimestamps =
     (let ltv = linesWithValidTimestamps logLinesWithTimestamps;
          dcs = collectedDatacenterConnections ltv
      in case anchorIndices ltv of
           Inl e \<Rightarrow> Inl e
         | Inr anchors \<Rightarrow>
             (case pushSnapshots ltv dcs (length anchors) anchors [] of
                Inl e \<Rightarrow> Inl e
              | Inr snapshots \<Rightarrow>
                  (case dcs of
                     first # _ \<Rightarrow>
                       if snapshots = [] then
                         Inr [\<lparr>anchorTimestamp = vwtTimestamp first, apVersion = None, cpuModel = None,
                               totalMemory = None, osVersion = None, dpi = None, monitors = None,
                               allDatacenterConnections = dcs\<rparr>]
                       else Inr snapshots
                   | [] \<Rightarrow> Inr snapshots)))"

section \<open>Permission snapshots\<close>

definition featuresRegex :: regex where
  "featuresRegex = cat [Lit ''Features:'', Star Space, Grp 1 (Star AnyChar)]"

definition xsAuthRegex :: regex where
  "xsAuthRegex = cat [Lit ''XSAuth:'', Star Space, Grp 1 (Star AnyChar)]"

definition xsPresetRegex :: regex where
  "xsPresetRegex = cat [Lit ''XSPreset:'', Star Space, Grp 1 (Star AnyChar)]"

definition MAX_LINES_APART_PERMISSIONS :: int where
  "MAX_LINES_APART_PERMISSIONS = 10"

definition MAX_TIME_APART_PERMISSIONS_MS :: rat where
  "MAX_TIME_APART_PERMISSIONS_MS = 2000"

text \<open>The permission set while it is collected: a field not yet seen is \<open>None\<close>.\<close>

record permissionSet =
  features :: "string option"
  xsAuth :: "string option"
  xsPreset :: "string option"

record permissionSnapshot =
  permTimestamp :: string
  permissions :: permissionSet

record snapshotInternal =
  siTimestamp :: string
  siPermissions :: permissionSet
  featureOriginalIndex :: nat

record permState =
  snapshots :: "permissionSnapshot list"
  currentSnapshotInternal :: "snapshotInternal option"

text \<open>A field passes the test of the finalizer when it is set, not empty, and not
  empty after trimming.\<close>

definition fieldOk :: "string option \<Rightarrow> bool" where
  "fieldOk f = (case f of None \<Rightarrow> False | Some v \<Rightarrow> v \<noteq> [] \<and> trim v \<noteq> [])"

definition finalizeAndPushSnapshot :: "permState \<Rightarrow> permState" where
  "finalizeAndPushSnapshot st =
     (case currentSnapshotInternal st of
        None \<Rightarrow> st
      | Some cur \<Rightarrow>
          let perms = siPermissions cur in
            (if fieldOk (features perms) \<and> fieldOk (xsAuth perms) \<and> fieldOk (xsPreset perms)
             then st\<lparr>snapshots := snapshots st @ [\<lparr>permTimestamp = siTimestamp cur, permissions = perms\<rparr>]\<rparr>
             else st)
            \<lparr>currentSnapshotInternal := None\<rparr>)"

text \<open>
  The proximity test. The time difference is exact here; in double precision a
  difference of exactly 2000 ms can land on either side of the bound. Nothing proved
  below about the permission snapshots depends on the outcome of this test.
\<close>

definition isOutsideWindow :: "snapshotInternal \<Rightarrow> string \<Rightarrow> nat \<Rightarrow> bool" where
  "isOutsideWindow cur ts idx =
     (let timeDiffMs = \<bar>timeToSeconds ts - timeToSeconds (siTimestamp cur)\<bar> * 1000;
          lineDiff = int idx - int (featureOriginalIndex cur)
      in lineDiff \<ge> MAX_LINES_APART_PERMISSIONS \<or> timeDiffMs > MAX_TIME_APART_PERMISSIONS_MS)"

text \<open>The part of the loop body that runs for a line inside the window of the open group.\<close>

definition collectField :: "permState \<Rightarrow> snapshotInternal \<Rightarrow> string \<Rightarrow> permState" where
  "collectField st cur l =
     (let perms = siPermissions cur in
        case (rmatch False xsAuthRegex l, xsAuth perms) of
          (Some xsAuthMatch, None) \<Rightarrow>
            st\<lparr>currentSnapshotInternal :=
                  Some (cur\<lparr>siPermissions := perms\<lparr>xsAuth := Some (trim (grp xsAuthMatch 1))\<rparr>\<rparr>)\<rparr>
        | _ \<Rightarrow>
            (case (rmatch False xsPresetRegex l, xsPreset perms) of
               (Some xsPresetMatch, None) \<Rightarrow>
                 st\<lparr>currentSnapshotInternal :=
                       Some (cur\<lparr>siPermissions := perms\<lparr>xsPreset := Some (trim (grp xsPresetMatch 1))\<rparr>\<rparr>)\<rparr>
             | _ \<Rightarrow> st))"

text \<open>The body of the loop over the line records.\<close>

definition permissionStep :: "permState \<Rightarrow> lineRec \<Rightarrow> permState" where
  "permissionStep st item =
     (case timestamp item of
        None \<Rightarrow> st
      | Some ts \<Rightarrow>
          if ts = [] then st
          else
            (case rmatch False featuresRegex (line item) of
               Some featuresMatch \<Rightarrow>
                 let st1 = finalizeAndPushSnapshot st;
                     featuresValue = trim (grp featuresMatch 1)
                 in if featuresValue \<noteq> [] then
                      st1\<lparr>currentSnapshotInternal :=
                            Some \<lparr>siTimestamp = ts,
                                  siPermissions = \<lparr>features = Some featuresValue, xsAuth = None, xsPreset = None\<rparr>,
                                  featureOriginalIndex = originalIndex item\<rparr>\<rparr>
                    else st1
             | None \<Rightarrow>
                 (case currentSnapshotInternal st of
                    None \<Rightarrow> st
                  | Some cur \<Rightarrow>
                      if isOutsideWindow cur ts (originalIndex item) then finalizeAndPushSnapshot st
                      else collectField st cur (line item))))"

definition parsePermissions :: "lineRec list \<Rightarrow> permissionSnapshot list" where
  "parsePermissions lws =
     snapshots (finalizeAndPushSnapshot
                  (foldl permissionStep \<lparr>snapshots = [], currentSnapshotInternal = None\<rparr> lws))"

section \<open>Indicator start events\<close>

definition createIndicatorRegex :: regex where
  "createIndicatorRegex =
     cat [Lit ''CreateIndicator IndicatorID:'', Grp 1 (Plus (NoneOf '','')),
          Lit '', Name:'', Grp 2 (Plus (NoneOf '','')),
          Lit '', MainSymbolID:'', Grp 3 (Plus (NoneOf '','')),
          Lit '', Freq:'', Grp 4 (Plus NonSpace)]"

definition startIndicatorRegex :: regex where
  "startIndicatorRegex =
     cat [Lit ''StartXSIndicator IndicatorID:'', Grp 1 (Plus (NoneOf '','')),
          Lit '', TotalBar:'', Grp 2 (Plus (NoneOf '','')),
          Lit '', FirstBarDate:'', Grp 3 (Plus (NoneOf '','')),
          Lit '', TDayCount:'', Grp 4 (Plus (NoneOf '','')),
          Lit '', AlignType:'', Grp 5 (Plus (NoneOf '','')),
          Lit '', AlignMode:'', Grp 6 (Plus (NoneOf '','')),
          Lit '', Sync:'', Grp 7 (Plus (NoneOf '','')),
          Lit '', AddFakeBar:'', Grp 8 (Plus (NoneOf '','')),
          Lit '', AutoCloseK:'', Grp 9 (Plus NonSpace)]"

record indicatorCreationInfo =
  ciId :: string
  ciName :: string
  ciMainSymbolId :: string
  ciFreq :: string
  creationTimestamp :: string

record indicatorStartEvent =
  startTimestamp :: string
  indicatorId :: string
  name :: "string option"
  mainSymbolId :: "string option"
  freq :: "string option"
  totalBar :: string
  firstBarDate :: string
  tDayCount :: string
  alignType :: string
  alignMode :: string
  sync :: string
  addFakeBar :: string
  autoCloseK :: string

text \<open>
  The lookup table \<open>createdIndicators\<close> is a plain object created by \<open>{}\<close> and read
  and written with computed keys, so its prototype takes part in both. The model
  keeps the table's own properties and its prototype: \<open>None\<close> is the initial
  prototype \<open>Object.prototype\<close>, \<open>Some info\<close> is a creation record that a write
  under the key \<open>__proto__\<close> has installed as the prototype.
\<close>

record indicatorTable =
  ownProps :: "string \<rightharpoonup> indicatorCreationInfo"
  protoInfo :: "indicatorCreationInfo option"

text \<open>What a read of the table can give.\<close>

datatype tableValue =
    Undefined
  | Info indicatorCreationInfo
  | BuiltinFunction string
  | StringValue string
  | ObjectPrototype

text \<open>
  Modelled from the platform: the properties every plain object inherits from
  \<open>Object.prototype\<close>. Each is a function whose \<open>name\<close> is the key, except
  \<open>constructor\<close>, which is the function named \<open>Object\<close>.
\<close>

definition objectPrototypeMethods :: "string list" where
  "objectPrototypeMethods =
     [''hasOwnProperty'', ''isPrototypeOf'', ''propertyIsEnumerable'', ''toLocaleString'',
      ''toString'', ''valueOf'', ''__defineGetter__'', ''__defineSetter__'',
      ''__lookupGetter__'', ''__lookupSetter__'']"

definition objectPrototypeGet :: "string \<Rightarrow> tableValue" where
  "objectPrototypeGet k =
     (if k = ''constructor'' then BuiltinFunction ''Object''
      else if k \<in> set objectPrototypeMethods then BuiltinFunction k
      else Undefined)"

definition infoGet :: "indicatorCreationInfo \<Rightarrow> string \<Rightarrow> tableValue" where
  "infoGet info k =
     (if k = ''id'' then StringValue (ciId info)
      else if k = ''name'' then StringValue (ciName info)
      else if k = ''mainSymbolId'' then StringValue (ciMainSymbolId info)
      else if k = ''freq'' then StringValue (ciFreq info)
      else if k = ''creationTimestamp'' then StringValue (creationTimestamp info)
      else objectPrototypeGet k)"

text \<open>\<open>createdIndicators[k] = info\<close>\<close>

definition tableSet :: "indicatorTable \<Rightarrow> string \<Rightarrow> indicatorCreationInfo \<Rightarrow> indicatorTable" where
  "tableSet t k info =
     (if k = ''__proto__'' then t\<lparr>protoInfo := Some info\<rparr>
      else t\<lparr>ownProps := (ownProps t)(k \<mapsto> info)\<rparr>)"

text \<open>\<open>createdIndicators[k]\<close>\<close>

definition tableGet :: "indicatorTable \<Rightarrow> string \<Rightarrow> tableValue" where
  "tableGet t k =
     (if k = ''__proto__'' then (case protoInfo t of None \<Rightarrow> ObjectPrototype | Some info \<Rightarrow> Info info)
      else (case ownProps t k of
              Some info \<Rightarrow> Info info
            | None \<Rightarrow> (case protoInfo t of None \<Rightarrow> objectPrototypeGet k | Some info \<Rightarrow> infoGet info k)))"

text \<open>The reads \<open>creationInfo?.name\<close>, \<open>creationInfo?.mainSymbolId\<close> and
  \<open>creationInfo?.freq\<close>; \<open>None\<close> is \<open>undefined\<close>.\<close>

fun nameOf :: "tableValue \<Rightarrow> string option" where
  "nameOf (Info info) = Some (ciName info)"
| "nameOf (BuiltinFunction n) = Some n"
| "nameOf _ = None"

fun mainSymbolIdOf :: "tableValue \<Rightarrow> string option" where
  "mainSymbolIdOf (Info info) = Some (ciMainSymbolId info)"
| "mainSymbolIdOf _ = None"

fun freqOf :: "tableValue \<Rightarrow> string option" where
  "freqOf (Info info) = Some (ciFreq info)"
| "freqOf _ = None"

record indicatorState =
  createdIndicators :: indicatorTable
  startedEvents :: "indicatorStartEvent list"

text \<open>The body of the loop over the line records: a creation line is stored and
  read no further; a start line is looked up and emitted.\<close>

definition indicatorStep :: "indicatorState \<Rightarrow> lineRec \<Rightarrow> indicatorState" where
  "indicatorStep st item =
     (case timestamp item of
        None \<Rightarrow> st
      | Some ts \<Rightarrow>
          if ts = [] then st
          else
            (case rmatch False createIndicatorRegex (line item) of
               Some createMatch \<Rightarrow>
                 st\<lparr>createdIndicators :=
                       tableSet (createdIndicators st) (grp createMatch 1)
                         \<lparr>ciId = grp createMatch 1, ciName = trim (grp createMatch 2),
                          ciMainSymbolId = trim (grp createMatch 3), ciFreq = trim (grp createMatch 4),
                          creationTimestamp = ts\<rparr>\<rparr>
             | None \<Rightarrow>
                 (case rmatch False startIndicatorRegex (line item) of
                    None \<Rightarrow> st
                  | Some startMatch \<Rightarrow>
                      let creationInfo = tableGet (createdIndicators st) (grp startMatch 1) in
                        st\<lparr>startedEvents := startedEvents st @
                             [\<lparr>startTimestamp = ts, indicatorId = trim (grp startMatch 1),
                               name = nameOf creationInfo,
                               mainSymbolId = mainSymbolIdOf creationInfo,
                               freq = freqOf creationInfo,
                               totalBar = trim (grp startMatch 2),
                               firstBarDate = trim (grp startMatch 3),
                               tDayCount = trim (grp startMatch 4),
                               alignType = trim (grp startMatch 5),
                               alignMode = trim (grp startMatch 6),
                               sync = trim (grp startMatch 7),
                               addFakeBar = trim (grp startMatch 8),
                               autoCloseK = trim (grp startMatch 9)\<rparr>]\<rparr>)))"

definition parseXSIndicatorSvcClientLog :: "lineRec list \<Rightarrow> indicatorStartEvent list" where
  "parseXSIndicatorSvcClientLog lws =
     startedEvents
       (foldl indicatorStep
          \<lparr>createdIndicators = \<lparr>ownProps = Map.empty, protoInfo = None\<rparr>, startedEvents = []\<rparr> lws)"

section \<open>Notions used in the properties\<close>

text \<open>
  The states that paging reaches: the filtered subset \<open>fl\<close> is stored, the cursor is
  \<open>c\<close>, the text shown is the first \<open>c\<close> lines of \<open>fl\<close>, the has-more flag says whether
  the cursor is below the end, a file is selected and nothing is loading.
\<close>

definition paged :: "string list \<Rightarrow> nat \<Rightarrow> viewState \<Rightarrow> bool" where
  "paged fl c s =
     (filteredAndLoadedLines s = fl \<and> currentDisplayEndIndex s = c
      \<and> displayedLogContent s = joinLines (take c fl)
      \<and> hasMoreLogContent s = (c < length fl)
      \<and> currentLogFullFile s \<and> \<not> isLogLoading s \<and> \<not> isLogLoadingMore s)"

text \<open>A view with a file selected, nothing loaded yet and nothing loading.\<close>

definition idleView :: viewState where
  "idleView = \<lparr>currentLogFullFile = True, displayedLogContent = [], allLoadedLogLines = [],
     filteredAndLoadedLines = [], currentDisplayEndIndex = 0, hasMoreLogContent = False,
     activeFilter = None, isLogLoading = False, isLogLoadingMore = False\<rparr>"

text \<open>A permission set that the finalizer keeps: each of the three fields passes.\<close>

definition complete :: "permissionSet \<Rightarrow> bool" where
  "complete p = (fieldOk (features p) \<and> fieldOk (xsAuth p) \<and> fieldOk (xsPreset p))"

text \<open>States in which nothing was emitted and the open group, if any, has no preset.\<close>

definition noPreset :: "permState \<Rightarrow> bool" where
  "noPreset st = (snapshots st = [] \<and>
      (case currentSnapshotInternal st of None \<Rightarrow> True | Some cur \<Rightarrow> xsPreset (siPermissions cur) = None))"

text \<open>The id under which a record is stored as a creation, if the loop stores it.\<close>

definition createdId :: "lineRec \<Rightarrow> string option" where
  "createdId item =
     (case timestamp item of
        None \<Rightarrow> None
      | Some ts \<Rightarrow>
          if ts = [] then None
          else map_option (\<lambda>m. grp m 1) (rmatch False createIndicatorRegex (line item)))"

definition initialIndicatorState :: indicatorState where
  "initialIndicatorState =
     \<lparr>createdIndicators = \<lparr>ownProps = Map.empty, protoInfo = None\<rparr>, startedEvents = []\<rparr>"

text \<open>
  What it means for \<open>kept\<close> to be the latest match of a field pattern in a window:
  nothing is kept exactly when no line of the window matches; otherwise the kept value
  and timestamp are those of a matching line at some position \<open>i\<close>, no matching line
  of the window has a later time, and every matching line after position \<open>i\<close> has a
  strictly earlier time. Times are compared as seconds counts.
\<close>

definition latestMatch ::
  "(string \<Rightarrow> string option) \<Rightarrow> stampedLine list \<Rightarrow> string valueWithTimestamp option \<Rightarrow> bool" where
  "latestMatch f w kept =
     (case kept of
        None \<Rightarrow> (\<forall>i < length w. f (sLine (w ! i)) = None)
      | Some r \<Rightarrow>
          (\<exists>i < length w.
             f (sLine (w ! i)) = Some (vwtValue r) \<and> sTimestamp (w ! i) = vwtTimestamp r
             \<and> (\<forall>j < length w. f (sLine (w ! j)) \<noteq> None \<longrightarrow>
                   timeToSeconds (sTimestamp (w ! j)) \<le> timeToSeconds (sTimestamp (w ! i))
                   \<and> (i < j \<longrightarrow> timeToSeconds (sTimestamp (w ! j)) < timeToSeconds (sTimestamp (w ! i))))))"

text \<open>A log with three CPU lines before an AP Version line: two at the same time, the
  third earlier in time but later in the file.\<close>

definition cpuTieLog :: "lineRec list" where
  "cpuTieLog = linesWithTimestamps
     [''DA 1 10:00:01.000 CPU: A'', ''DA 1 10:00:01.000 CPU: B'', ''DA 1 10:00:00.500 CPU: C'',
      ''DA 1 10:00:02.000 AP Version: [1.2.3]'']"

text \<open>
  A valid canonical timestamp: two digits, a colon, two digits, a colon, two digits, a
  dot and three digits, with the minutes and the seconds below 60. The hours may be
  any two digits.
\<close>

fun validTimestamp :: "string \<Rightarrow> bool" where
  "validTimestamp [h1, h2, c1, m1, m2, c2, s1, s2, d, f1, f2, f3] =
     (isDigit h1 \<and> isDigit h2 \<and> c1 = CHR '':'' \<and> isDigit m1 \<and> isDigit m2 \<and> c2 = CHR '':''
      \<and> isDigit s1 \<and> isDigit s2 \<and> d = CHR ''.'' \<and> isDigit f1 \<and> isDigit f2 \<and> isDigit f3
      \<and> 10 * digitVal m1 + digitVal m2 < 60 \<and> 10 * digitVal s1 + digitVal s2 < 60)"
| "validTimestamp _ = False"

text \<open>The comparison \<open><\<close> of two strings: by the first code unit in which they
  differ, a proper prefix being smaller.\<close>

fun lexLess :: "string \<Rightarrow> string \<Rightarrow> bool" where
  "lexLess [] [] = False"
| "lexLess [] (y # ys) = True"
| "lexLess (x # xs) [] = False"
| "lexLess (x # xs) (y # ys) = ((of_char x :: nat) < of_char y \<or> (x = y \<and> lexLess xs ys))"

text \<open>
  The expected form of a memory value, in the words of the specification: somewhere in
  the line the marker text, in any letter case, is followed by optional white space, at
  least one digit, optional white space and \<open>MB\<close>.
\<close>

definition ciPrefix :: "string \<Rightarrow> string \<Rightarrow> bool" where
  "ciPrefix w s = (map canonicalize (take (length w) s) = map canonicalize w)"

definition valueAfterMarker :: "string \<Rightarrow> bool" where
  "valueAfterMarker s =
     (ciPrefix ''XQ Used Mem:'' s \<and>
      (let r1 = dropWhile isSpace (drop (length ''XQ Used Mem:'') s);
           r2 = dropWhile isSpace (dropWhile isDigit r1)
       in takeWhile isDigit r1 \<noteq> [] \<and> ciPrefix ''MB'' r2))"

fun markerWithValue :: "string \<Rightarrow> bool" where
  "markerWithValue [] = False"
| "markerWithValue (c # cs) = (valueAfterMarker (c # cs) \<or> markerWithValue cs)"






section \<open>The event counts and the filtered subsets\<close>

lemma errorCount_foldl:
  "errorCount (foldl countLine st ls) = errorCount st + length (filter (rtest True errorRegex) ls)"
  by (induction ls arbitrary: st) (simp_all add: countLine_def Let_def)

lemma warnCount_foldl:
  "warnCount (foldl countLine st ls) = warnCount st + length (filter (rtest True warnRegex) ls)"
  by (induction ls arbitrary: st) (simp_all add: countLine_def Let_def)

text \<open>
  Claim C10. For every array of raw lines, the error count of the event-count parser
  is the length of the subset that a new display computes for the error filter, and
  the warning count is the length of the subset computed for the warning filter,
  whatever the view state was before.
\<close>

theorem counts_agree_with_filtered_subsets:
  "errorCount (parseAndCountLogEvents ls)
     = length (filteredAndLoadedLines (displayLogChunk ls (Some FilterError) True st))
   \<and> warnCount (parseAndCountLogEvents ls)
     = length (filteredAndLoadedLines (displayLogChunk ls (Some FilterWarn) True st))"
  by (simp add: parseAndCountLogEvents_def errorCount_foldl warnCount_foldl
        displayLogChunk_def applyFilter_def Let_def)

section \<open>Paging through the filtered lines\<close>

lemma joinLines_append:
  "xs \<noteq> [] \<Longrightarrow> ys \<noteq> [] \<Longrightarrow> joinLines (xs @ ys) = joinLines xs @ CHR 0x0A # joinLines ys"
proof (induction xs rule: joinLines.induct)
  case 1 then show ?case by simp
next
  case (2 l)
  then show ?case by (cases ys) simp_all
next
  case (3 l m ls)
  then show ?case by simp
qed

lemma joinLines_nonempty: "2 \<le> length xs \<Longrightarrow> joinLines xs \<noteq> []"
  by (cases xs rule: joinLines.cases) simp_all

lemma restart_paged:
  assumes "currentLogFullFile st" "\<not> isLogLoading st" "\<not> isLogLoadingMore st"
  shows "paged (applyFilter f src) (min 500 (length (applyFilter f src))) (displayLogChunk src f True st)"
  using assms
  by (simp add: paged_def displayLogChunk_def Let_def slice_def LINES_PER_CHUNK_DISPLAY_def min_def)

lemma loadMore_paged:
  assumes "paged fl c s" "c < length fl" "500 \<le> c"
  shows "paged fl (min (c + 500) (length fl)) (handleLoadMoreLogContent s)"
    and "displayedLogContent (handleLoadMoreLogContent s)
           = displayedLogContent s @ CHR 0x0A # joinLines (slice c (c + min 500 (length fl - c)) fl)"
proof -
  let ?e = "min (c + 500) (length fl)"
  let ?chunk = "slice c ?e fl"
  have guard: "currentLogFullFile s \<and> hasMoreLogContent s \<and> \<not> isLogLoading s \<and> \<not> isLogLoadingMore s"
    using assms by (simp add: paged_def)
  have prev: "displayedLogContent s = joinLines (take c fl)" using assms by (simp add: paged_def)
  have "2 \<le> length (take c fl)" using assms by simp
  then have prev_ne: "joinLines (take c fl) \<noteq> []" by (rule joinLines_nonempty)
  have chunk_ne: "?chunk \<noteq> []" using assms by (simp add: slice_def)
  have tk: "take ?e fl = take c fl @ ?chunk"
  proof -
    have "?e = c + (?e - c)" using assms(2) by simp
    then have "take ?e fl = take (c + (?e - c)) fl" by simp
    also have "\<dots> = take c fl @ take (?e - c) (drop c fl)" by (rule take_add)
    finally show ?thesis by (simp add: slice_def)
  qed
  have tc_ne: "take c fl \<noteq> []" using assms by auto
  have disp: "displayedLogContent (handleLoadMoreLogContent s) = joinLines (take c fl) @ CHR 0x0A # joinLines ?chunk"
    using guard prev prev_ne assms(1)
    by (simp add: handleLoadMoreLogContent_def displayLogChunk_def Let_def LINES_PER_CHUNK_DISPLAY_def paged_def)
  have "joinLines (take ?e fl) = joinLines (take c fl) @ CHR 0x0A # joinLines ?chunk"
    unfolding tk using tc_ne chunk_ne by (rule joinLines_append)
  with disp have d2: "displayedLogContent (handleLoadMoreLogContent s) = joinLines (take ?e fl)" by simp
  show "paged fl ?e (handleLoadMoreLogContent s)"
    using guard assms(1) d2
    by (simp add: paged_def handleLoadMoreLogContent_def displayLogChunk_def Let_def LINES_PER_CHUNK_DISPLAY_def)
  have "c + min 500 (length fl - c) = ?e" using assms(2) by arith
  with disp prev show "displayedLogContent (handleLoadMoreLogContent s)
           = displayedLogContent s @ CHR 0x0A # joinLines (slice c (c + min 500 (length fl - c)) fl)"
    by simp
qed

lemma loadMore_noop:
  assumes "paged fl c s" "\<not> c < length fl"
  shows "handleLoadMoreLogContent s = s"
  using assms by (simp add: paged_def handleLoadMoreLogContent_def)

lemma loadMore_iter:
  assumes "currentLogFullFile st" "\<not> isLogLoading st" "\<not> isLogLoadingMore st"
  shows "paged (applyFilter f src) (min (500 * Suc k) (length (applyFilter f src)))
           ((handleLoadMoreLogContent ^^ k) (displayLogChunk src f True st))"
proof (induction k)
  case 0
  show ?case using restart_paged[OF assms] by simp
next
  case (Suc k)
  let ?fl = "applyFilter f src"
  let ?c = "min (500 * Suc k) (length ?fl)"
  let ?s = "(handleLoadMoreLogContent ^^ k) (displayLogChunk src f True st)"
  show ?case
  proof (cases "?c < length ?fl")
    case True
    then have c: "?c = 500 * Suc k" by (simp add: min_def split: if_splits)
    have "paged ?fl (min (?c + 500) (length ?fl)) (handleLoadMoreLogContent ?s)"
      using Suc True c by (intro loadMore_paged(1)) simp_all
    then show ?thesis using c by simp
  next
    case False
    then have "handleLoadMoreLogContent ?s = ?s" using Suc loadMore_noop by blast
    moreover have "min (500 * Suc (Suc k)) (length ?fl) = ?c" using False by simp
    ultimately show ?thesis using Suc by simp
  qed
qed

text \<open>
  Claim C3. With a file selected and no load in progress, a new display of the lines
  \<open>src\<close> under the filter \<open>f\<close> stores the filtered subset \<open>fl\<close> of length \<open>N\<close>, shows
  exactly its first \<open>min 500 N\<close> lines and sets the cursor there. After any number \<open>k\<close>
  of load-more requests the cursor is \<open>min (500 * (k + 1)) N\<close>, the text shown is the
  lines before the cursor, and the has-more flag is true exactly when the cursor is
  below \<open>N\<close>. A load-more with the cursor below \<open>N\<close> appends a line feed and exactly the
  next \<open>min 500 (N - cursor)\<close> lines and advances the cursor by that amount; with the
  cursor at \<open>N\<close> it changes nothing. For \<open>N = 1200\<close> the cursor goes 500, 1000, 1200
  and stays there.
\<close>

theorem chunked_delivery:
  assumes "currentLogFullFile st" "\<not> isLogLoading st" "\<not> isLogLoadingMore st"
  shows "let fl = applyFilter f src; N = length fl;
             s0 = displayLogChunk src f True st;
             sk = (handleLoadMoreLogContent ^^ k) s0;
             c = currentDisplayEndIndex sk
         in filteredAndLoadedLines s0 = fl
          \<and> displayedLogContent s0 = joinLines (take (min 500 N) fl)
          \<and> currentDisplayEndIndex s0 = min 500 N
          \<and> filteredAndLoadedLines sk = fl
          \<and> c = min (500 * (k + 1)) N
          \<and> displayedLogContent sk = joinLines (take c fl)
          \<and> hasMoreLogContent sk = (c < N)
          \<and> (c < N \<longrightarrow>
                displayedLogContent (handleLoadMoreLogContent sk)
                  = displayedLogContent sk @ CHR 0x0A # joinLines (slice c (c + min 500 (N - c)) fl)
                \<and> currentDisplayEndIndex (handleLoadMoreLogContent sk) = c + min 500 (N - c))
          \<and> (c = N \<longrightarrow> handleLoadMoreLogContent sk = sk)"
proof -
  let ?fl = "applyFilter f src"
  let ?s0 = "displayLogChunk src f True st"
  let ?sk = "(handleLoadMoreLogContent ^^ k) ?s0"
  let ?c = "min (500 * Suc k) (length ?fl)"
  have p0: "paged ?fl (min 500 (length ?fl)) ?s0" by (rule restart_paged[OF assms])
  have pk: "paged ?fl ?c ?sk" by (rule loadMore_iter[OF assms])
  have ck: "currentDisplayEndIndex ?sk = ?c" using pk by (simp add: paged_def)
  have more: "?c < length ?fl \<Longrightarrow>
        displayedLogContent (handleLoadMoreLogContent ?sk)
          = displayedLogContent ?sk @ CHR 0x0A # joinLines (slice ?c (?c + min 500 (length ?fl - ?c)) ?fl)
        \<and> currentDisplayEndIndex (handleLoadMoreLogContent ?sk) = ?c + min 500 (length ?fl - ?c)"
  proof -
    assume lt: "?c < length ?fl"
    then have c500: "500 \<le> ?c" by simp
    have "paged ?fl (min (?c + 500) (length ?fl)) (handleLoadMoreLogContent ?sk)"
      by (rule loadMore_paged(1)[OF pk lt c500])
    then have "currentDisplayEndIndex (handleLoadMoreLogContent ?sk) = min (?c + 500) (length ?fl)"
      by (simp add: paged_def)
    moreover have "min (?c + 500) (length ?fl) = ?c + min 500 (length ?fl - ?c)" using lt by arith
    ultimately show ?thesis using loadMore_paged(2)[OF pk lt c500] by simp
  qed
  have noop: "?c = length ?fl \<Longrightarrow> handleLoadMoreLogContent ?sk = ?sk"
    using loadMore_noop[OF pk] by simp
  show ?thesis
    unfolding Let_def ck
    using p0 pk more noop by (simp add: paged_def)
qed

theorem chunked_delivery_witness:
  "currentLogFullFile idleView \<and> \<not> isLogLoading idleView \<and> \<not> isLogLoadingMore idleView
   \<and> currentDisplayEndIndex (displayLogChunk (replicate 1200 ''x'') None True idleView) = 500
   \<and> hasMoreLogContent (displayLogChunk (replicate 1200 ''x'') None True idleView)
   \<and> currentDisplayEndIndex
        ((handleLoadMoreLogContent ^^ 2) (displayLogChunk (replicate 1200 ''x'') None True idleView)) = 1200
   \<and> \<not> hasMoreLogContent
        ((handleLoadMoreLogContent ^^ 2) (displayLogChunk (replicate 1200 ''x'') None True idleView))
   \<and> handleLoadMoreLogContent
        ((handleLoadMoreLogContent ^^ 2) (displayLogChunk (replicate 1200 ''x'') None True idleView))
      = (handleLoadMoreLogContent ^^ 2) (displayLogChunk (replicate 1200 ''x'') None True idleView)"
proof -
  have h: "currentLogFullFile idleView" "\<not> isLogLoading idleView" "\<not> isLogLoadingMore idleView"
    by (simp_all add: idleView_def)
  have n: "length (applyFilter None (replicate 1200 ''x'')) = 1200"
    by (simp add: applyFilter_def)
  show ?thesis
    using h chunked_delivery[OF h, of None "replicate 1200 ''x''" 0]
      chunked_delivery[OF h, of None "replicate 1200 ''x''" 2]
    unfolding Let_def n
    by simp
qed

section \<open>Permission snapshots are complete\<close>

lemma finalize_snapshots:
  "snapshots (finalizeAndPushSnapshot st)
     = (case currentSnapshotInternal st of
          None \<Rightarrow> snapshots st
        | Some cur \<Rightarrow> if complete (siPermissions cur)
                      then snapshots st @ [\<lparr>permTimestamp = siTimestamp cur, permissions = siPermissions cur\<rparr>]
                      else snapshots st)"
  by (simp add: finalizeAndPushSnapshot_def complete_def Let_def split: option.splits)

lemma finalize_current: "currentSnapshotInternal (finalizeAndPushSnapshot st) = None"
  by (simp add: finalizeAndPushSnapshot_def Let_def split: option.splits)

lemma finalize_complete:
  "\<forall>s \<in> set (snapshots st). complete (permissions s)
   \<Longrightarrow> \<forall>s \<in> set (snapshots (finalizeAndPushSnapshot st)). complete (permissions s)"
  by (auto simp: finalize_snapshots split: option.splits)

lemma collectField_snapshots: "snapshots (collectField st cur l) = snapshots st"
  by (simp add: collectField_def Let_def split: option.splits prod.splits)

lemma step_complete:
  "\<forall>s \<in> set (snapshots st). complete (permissions s)
   \<Longrightarrow> \<forall>s \<in> set (snapshots (permissionStep st item)). complete (permissions s)"
  using finalize_complete[of st]
  by (auto simp: permissionStep_def Let_def collectField_snapshots split: option.splits)

lemma foldl_complete:
  "\<forall>s \<in> set (snapshots st). complete (permissions s)
   \<Longrightarrow> \<forall>s \<in> set (snapshots (foldl permissionStep st lws)). complete (permissions s)"
proof (induction lws arbitrary: st)
  case Nil then show ?case by simp
next
  case (Cons a lws)
  show ?case unfolding foldl_Cons by (rule Cons.IH, rule step_complete, rule Cons.prems)
qed

lemma parsePermissions_complete:
  "\<forall>s \<in> set (parsePermissions lws). complete (permissions s)"
  unfolding parsePermissions_def
  by (rule finalize_complete, rule foldl_complete) simp

lemma finalize_noPreset: "noPreset st \<Longrightarrow> noPreset (finalizeAndPushSnapshot st)"
  by (auto simp: noPreset_def finalize_snapshots finalize_current complete_def fieldOk_def split: option.splits)

lemma collect_noPreset:
  "noPreset st \<Longrightarrow> currentSnapshotInternal st = Some cur \<Longrightarrow> rmatch False xsPresetRegex l = None
   \<Longrightarrow> noPreset (collectField st cur l)"
  by (auto simp: noPreset_def collectField_def Let_def split: option.splits prod.splits)

lemma step_noPreset:
  "noPreset st \<Longrightarrow> rmatch False xsPresetRegex (line item) = None \<Longrightarrow> noPreset (permissionStep st item)"
  using finalize_noPreset[of st] collect_noPreset[of st _ "line item"]
  apply (auto simp: permissionStep_def Let_def split: option.splits)
  apply (auto simp: noPreset_def)
  done

lemma foldl_noPreset:
  "noPreset st \<Longrightarrow> \<forall>item \<in> set lws. rmatch False xsPresetRegex (line item) = None
   \<Longrightarrow> noPreset (foldl permissionStep st lws)"
  by (induction lws arbitrary: st) (simp_all add: step_noPreset)

lemma parsePermissions_noPreset:
  "\<forall>item \<in> set lws. rmatch False xsPresetRegex (line item) = None \<Longrightarrow> parsePermissions lws = []"
proof -
  assume a: "\<forall>item \<in> set lws. rmatch False xsPresetRegex (line item) = None"
  have "noPreset \<lparr>snapshots = [], currentSnapshotInternal = None\<rparr>" by (simp add: noPreset_def)
  then have "noPreset (foldl permissionStep \<lparr>snapshots = [], currentSnapshotInternal = None\<rparr> lws)"
    using a by (rule foldl_noPreset)
  then have "noPreset (finalizeAndPushSnapshot (foldl permissionStep \<lparr>snapshots = [], currentSnapshotInternal = None\<rparr> lws))"
    by (rule finalize_noPreset)
  then show ?thesis by (simp add: parsePermissions_def noPreset_def)
qed

lemma featuresA_noPreset: "rmatch False xsPresetRegex ''Features: A'' = None"
  by code_simp
lemma authB_noPreset: "rmatch False xsPresetRegex ''XSAuth: B'' = None"
  by code_simp

text \<open>
  Claim C1. For every sequence of line records: every snapshot that the permission
  builder emits has its three fields set, and none of them is empty after trimming;
  finalizing an open group in which one of the three fields fails the test emits
  nothing and only closes the group; a sequence without any line that matches the
  preset pattern gives no snapshot; in particular the two records
  \<open>Features: A\<close> and, at the next index, \<open>XSAuth: B\<close> give no snapshot, whatever
  their timestamps are.
\<close>

theorem permission_snapshots_complete:
  "(\<forall>snap \<in> set (parsePermissions lws).
      \<exists>f a p. permissions snap = \<lparr>features = Some f, xsAuth = Some a, xsPreset = Some p\<rparr>
              \<and> trim f \<noteq> [] \<and> trim a \<noteq> [] \<and> trim p \<noteq> [])
   \<and> (\<forall>st cur. currentSnapshotInternal st = Some cur
          \<and> \<not> (fieldOk (features (siPermissions cur)) \<and> fieldOk (xsAuth (siPermissions cur))
                \<and> fieldOk (xsPreset (siPermissions cur)))
        \<longrightarrow> finalizeAndPushSnapshot st = st\<lparr>currentSnapshotInternal := None\<rparr>)
   \<and> ((\<forall>item \<in> set lws. rmatch False xsPresetRegex (line item) = None) \<longrightarrow> parsePermissions lws = [])
   \<and> parsePermissions
        [\<lparr>line = ''Features: A'', timestamp = Some t1, originalIndex = i\<rparr>,
         \<lparr>line = ''XSAuth: B'', timestamp = Some t2, originalIndex = Suc i\<rparr>] = []"
proof (intro conjI)
  show "\<forall>snap \<in> set (parsePermissions lws).
      \<exists>f a p. permissions snap = \<lparr>features = Some f, xsAuth = Some a, xsPreset = Some p\<rparr>
              \<and> trim f \<noteq> [] \<and> trim a \<noteq> [] \<and> trim p \<noteq> []"
  proof
    fix snap assume "snap \<in> set (parsePermissions lws)"
    then have c: "complete (permissions snap)" using parsePermissions_complete by blast
    obtain pf pa pp where p: "permissions snap = \<lparr>features = pf, xsAuth = pa, xsPreset = pp\<rparr>"
      by (cases "permissions snap") simp
    from c p obtain f a pr where "pf = Some f" "pa = Some a" "pp = Some pr"
        "trim f \<noteq> []" "trim a \<noteq> []" "trim pr \<noteq> []"
      by (auto simp: complete_def fieldOk_def split: option.splits)
    with p show "\<exists>f a p. permissions snap = \<lparr>features = Some f, xsAuth = Some a, xsPreset = Some p\<rparr>
              \<and> trim f \<noteq> [] \<and> trim a \<noteq> [] \<and> trim p \<noteq> []"
      by simp
  qed
next
  show "\<forall>st cur. currentSnapshotInternal st = Some cur
          \<and> \<not> (fieldOk (features (siPermissions cur)) \<and> fieldOk (xsAuth (siPermissions cur))
                \<and> fieldOk (xsPreset (siPermissions cur)))
        \<longrightarrow> finalizeAndPushSnapshot st = st\<lparr>currentSnapshotInternal := None\<rparr>"
    by (auto simp: finalizeAndPushSnapshot_def Let_def)
next
  show "(\<forall>item \<in> set lws. rmatch False xsPresetRegex (line item) = None) \<longrightarrow> parsePermissions lws = []"
    using parsePermissions_noPreset by blast
next
  show "parsePermissions
        [\<lparr>line = ''Features: A'', timestamp = Some t1, originalIndex = i\<rparr>,
         \<lparr>line = ''XSAuth: B'', timestamp = Some t2, originalIndex = Suc i\<rparr>] = []"
    by (rule parsePermissions_noPreset) (simp add: featuresA_noPreset authB_noPreset)
qed

theorem permission_snapshots_complete_witness:
  "parsePermissions (linesWithTimestamps
      [''DA 7 10:00:00.000 Features: A'', ''DA 7 10:00:00.250 XSAuth: B'',
       ''DA 7 10:00:00.500 XSPreset: C''])
     = [\<lparr>permTimestamp = ''10:00:00.000'',
         permissions = \<lparr>features = Some ''A'', xsAuth = Some ''B'', xsPreset = Some ''C''\<rparr>\<rparr>]
   \<and> (\<exists>f a p. \<lparr>features = Some ''A'', xsAuth = Some ''B'', xsPreset = Some ''C''\<rparr>
                = \<lparr>features = Some f, xsAuth = Some a, xsPreset = Some p\<rparr>
              \<and> trim f \<noteq> [] \<and> trim a \<noteq> [] \<and> trim p \<noteq> [])
   \<and> parsePermissions
        [\<lparr>line = ''Features: A'', timestamp = Some ''10:00:00.000'', originalIndex = 0\<rparr>,
         \<lparr>line = ''XSAuth: B'', timestamp = Some ''10:00:00.250'', originalIndex = Suc 0\<rparr>] = []"
proof -
  have e: "parsePermissions (linesWithTimestamps
      [''DA 7 10:00:00.000 Features: A'', ''DA 7 10:00:00.250 XSAuth: B'',
       ''DA 7 10:00:00.500 XSPreset: C''])
     = [\<lparr>permTimestamp = ''10:00:00.000'',
         permissions = \<lparr>features = Some ''A'', xsAuth = Some ''B'', xsPreset = Some ''C''\<rparr>\<rparr>]"
    by code_simp
  note t = permission_snapshots_complete
      [of "linesWithTimestamps
            [''DA 7 10:00:00.000 Features: A'', ''DA 7 10:00:00.250 XSAuth: B'',
             ''DA 7 10:00:00.500 XSPreset: C'']" "''10:00:00.000''" 0 "''10:00:00.250''"]
  from t have "\<forall>snap \<in> set (parsePermissions (linesWithTimestamps
          [''DA 7 10:00:00.000 Features: A'', ''DA 7 10:00:00.250 XSAuth: B'',
           ''DA 7 10:00:00.500 XSPreset: C''])).
        \<exists>f a p. permissions snap = \<lparr>features = Some f, xsAuth = Some a, xsPreset = Some p\<rparr>
                \<and> trim f \<noteq> [] \<and> trim a \<noteq> [] \<and> trim p \<noteq> []"
    by (rule conjunct1)
  then have 1: "\<exists>f a p. \<lparr>features = Some ''A'', xsAuth = Some ''B'', xsPreset = Some ''C''\<rparr>
                = \<lparr>features = Some f, xsAuth = Some a, xsPreset = Some p\<rparr>
              \<and> trim f \<noteq> [] \<and> trim a \<noteq> [] \<and> trim p \<noteq> []"
    unfolding e by simp
  from t have 2: "parsePermissions
        [\<lparr>line = ''Features: A'', timestamp = Some ''10:00:00.000'', originalIndex = 0\<rparr>,
         \<lparr>line = ''XSAuth: B'', timestamp = Some ''10:00:00.250'', originalIndex = Suc 0\<rparr>] = []"
    by blast
  from e 1 2 show ?thesis by blast
qed

section \<open>Indicator start events and the creation table\<close>

lemma tableGet_tableSet_same: "tableGet (tableSet t k info) k = Info info"
  by (simp add: tableGet_def tableSet_def)

lemma objectPrototypeGet_not_Info: "objectPrototypeGet k \<noteq> Info info"
  by (simp add: objectPrototypeGet_def)

lemma infoGet_not_Info: "infoGet i k \<noteq> Info info"
  by (simp add: infoGet_def objectPrototypeGet_not_Info)

lemma tableGet_tableSet_other:
  assumes "tableGet t k = Info info" "k' \<noteq> k"
  shows "tableGet (tableSet t k' info') k = Info info"
proof (cases "k = ''__proto__''")
  case True
  with assms show ?thesis by (simp add: tableGet_def tableSet_def split: option.splits)
next
  case False
  with assms(1) have "ownProps t k = Some info"
    by (auto simp: tableGet_def objectPrototypeGet_not_Info infoGet_not_Info split: option.splits)
  with False assms(2) show ?thesis by (simp add: tableGet_def tableSet_def)
qed

lemma indicatorStep_keeps:
  assumes "tableGet (createdIndicators st) k = Info info" "createdId item \<noteq> Some k"
  shows "tableGet (createdIndicators (indicatorStep st item)) k = Info info"
  using assms
  by (auto simp: indicatorStep_def createdId_def Let_def tableGet_tableSet_other
           split: option.splits)

lemma indicatorStep_create:
  assumes "timestamp item = Some ts" "ts \<noteq> []"
    and "rmatch False createIndicatorRegex (line item) = Some m"
  shows "tableGet (createdIndicators (indicatorStep st item)) (grp m 1)
           = Info \<lparr>ciId = grp m 1, ciName = trim (grp m 2), ciMainSymbolId = trim (grp m 3),
                   ciFreq = trim (grp m 4), creationTimestamp = ts\<rparr>"
  using assms by (simp add: indicatorStep_def tableGet_tableSet_same)

lemma foldl_indicatorStep_keeps:
  assumes "tableGet (createdIndicators st) k = Info info"
    and "\<forall>item \<in> set items. createdId item \<noteq> Some k"
  shows "tableGet (createdIndicators (foldl indicatorStep st items)) k = Info info"
  using assms
proof (induction items arbitrary: st)
  case Nil then show ?case by simp
next
  case (Cons a items)
  have "tableGet (createdIndicators (indicatorStep st a)) k = Info info"
    using Cons.prems by (intro indicatorStep_keeps) simp_all
  then show ?case using Cons by simp
qed

lemma indicatorStep_start:
  assumes "timestamp item = Some ts" "ts \<noteq> []"
    and "rmatch False createIndicatorRegex (line item) = None"
    and "rmatch False startIndicatorRegex (line item) = Some m"
  shows "startedEvents (indicatorStep st item) = startedEvents st @
           [\<lparr>startTimestamp = ts, indicatorId = trim (grp m 1),
             name = nameOf (tableGet (createdIndicators st) (grp m 1)),
             mainSymbolId = mainSymbolIdOf (tableGet (createdIndicators st) (grp m 1)),
             freq = freqOf (tableGet (createdIndicators st) (grp m 1)),
             totalBar = trim (grp m 2), firstBarDate = trim (grp m 3), tDayCount = trim (grp m 4),
             alignType = trim (grp m 5), alignMode = trim (grp m 6), sync = trim (grp m 7),
             addFakeBar = trim (grp m 8), autoCloseK = trim (grp m 9)\<rparr>]"
  using assms by (simp add: indicatorStep_def Let_def)

lemma parse_as_fold:
  "parseXSIndicatorSvcClientLog lws = startedEvents (foldl indicatorStep initialIndicatorState lws)"
  by (simp add: parseXSIndicatorSvcClientLog_def initialIndicatorState_def)

text \<open>
  Claim C6. Let the input end with a start line for an id, and let \<open>c2\<close> be the last
  creation line for that id before it, an earlier creation line \<open>c1\<close> for the same id
  notwithstanding. Then the start line adds one event to the output, and the event's
  name, mainSymbolId and freq are the trimmed values of \<open>c2\<close>. The lines are
  timestamped; the start line is one that the loop reads as a start line, that is, it
  does not match the creation pattern as well.
\<close>

theorem last_creation_wins:
  assumes "timestamp c1 = Some ts1" "ts1 \<noteq> []"
    and "rmatch False createIndicatorRegex (line c1) = Some m1"
    and "timestamp c2 = Some ts2" "ts2 \<noteq> []"
    and "rmatch False createIndicatorRegex (line c2) = Some m2"
    and "grp m1 1 = grp m2 1"
    and "\<forall>item \<in> set mid2. createdId item \<noteq> Some (grp m2 1)"
    and "timestamp s = Some ts" "ts \<noteq> []"
    and "rmatch False createIndicatorRegex (line s) = None"
    and "rmatch False startIndicatorRegex (line s) = Some ms"
    and "grp ms 1 = grp m2 1"
  shows "\<exists>ev. parseXSIndicatorSvcClientLog (pre @ [c1] @ mid1 @ [c2] @ mid2 @ [s])
               = parseXSIndicatorSvcClientLog (pre @ [c1] @ mid1 @ [c2] @ mid2) @ [ev]
             \<and> name ev = Some (trim (grp m2 2))
             \<and> mainSymbolId ev = Some (trim (grp m2 3))
             \<and> freq ev = Some (trim (grp m2 4))"
proof -
  let ?before = "foldl indicatorStep initialIndicatorState (pre @ [c1] @ mid1)"
  let ?info = "\<lparr>ciId = grp m2 1, ciName = trim (grp m2 2), ciMainSymbolId = trim (grp m2 3),
                 ciFreq = trim (grp m2 4), creationTimestamp = ts2\<rparr>"
  let ?st = "foldl indicatorStep initialIndicatorState (pre @ [c1] @ mid1 @ [c2] @ mid2)"
  have "tableGet (createdIndicators (indicatorStep ?before c2)) (grp m2 1) = Info ?info"
    using assms(4-6) by (rule indicatorStep_create)
  then have "tableGet (createdIndicators (foldl indicatorStep (indicatorStep ?before c2) mid2)) (grp m2 1)
               = Info ?info"
    using assms(8) by (rule foldl_indicatorStep_keeps)
  then have tab: "tableGet (createdIndicators ?st) (grp ms 1) = Info ?info"
    using assms(13) by simp
  have "parseXSIndicatorSvcClientLog (pre @ [c1] @ mid1 @ [c2] @ mid2 @ [s])
          = startedEvents (indicatorStep ?st s)"
    by (simp add: parse_as_fold)
  also have "\<dots> = startedEvents ?st @
           [\<lparr>startTimestamp = ts, indicatorId = trim (grp ms 1),
             name = nameOf (Info ?info), mainSymbolId = mainSymbolIdOf (Info ?info),
             freq = freqOf (Info ?info),
             totalBar = trim (grp ms 2), firstBarDate = trim (grp ms 3), tDayCount = trim (grp ms 4),
             alignType = trim (grp ms 5), alignMode = trim (grp ms 6), sync = trim (grp ms 7),
             addFakeBar = trim (grp ms 8), autoCloseK = trim (grp ms 9)\<rparr>]"
    using indicatorStep_start[OF assms(9-12), of ?st] tab by simp
  finally show ?thesis by (simp add: parse_as_fold)
qed

theorem last_creation_wins_witness:
  "\<exists>ev. parseXSIndicatorSvcClientLog (linesWithTimestamps
           [''S 1 10:00:00.000 CreateIndicator IndicatorID:42, Name:Foo, MainSymbolID:2330.TW, Freq:8'',
            ''S 1 10:00:00.500 CreateIndicator IndicatorID:42, Name:Bar, MainSymbolID:2317.TW, Freq:9'',
            ''S 1 10:00:01.000 StartXSIndicator IndicatorID:42, TotalBar:100, FirstBarDate:20240101, TDayCount:5, AlignType:0, AlignMode:1, Sync:1, AddFakeBar:0, AutoCloseK:1''])
         = [ev]
       \<and> name ev = Some ''Bar'' \<and> mainSymbolId ev = Some ''2317.TW'' \<and> freq ev = Some ''9''"
proof -
  let ?l1 = "''S 1 10:00:00.000 CreateIndicator IndicatorID:42, Name:Foo, MainSymbolID:2330.TW, Freq:8''"
  let ?l2 = "''S 1 10:00:00.500 CreateIndicator IndicatorID:42, Name:Bar, MainSymbolID:2317.TW, Freq:9''"
  let ?l3 = "''S 1 10:00:01.000 StartXSIndicator IndicatorID:42, TotalBar:100, FirstBarDate:20240101, TDayCount:5, AlignType:0, AlignMode:1, Sync:1, AddFakeBar:0, AutoCloseK:1''"
  let ?c1 = "\<lparr>line = ?l1, timestamp = Some ''10:00:00.000'', originalIndex = 0\<rparr>"
  let ?c2 = "\<lparr>line = ?l2, timestamp = Some ''10:00:00.500'', originalIndex = 1\<rparr>"
  let ?s = "\<lparr>line = ?l3, timestamp = Some ''10:00:01.000'', originalIndex = 2\<rparr>"
  have lws: "linesWithTimestamps [?l1, ?l2, ?l3] = [] @ [?c1] @ [] @ [?c2] @ [] @ [?s]"
    by code_simp
  have "case rmatch False createIndicatorRegex ?l1 of None \<Rightarrow> False | Some m \<Rightarrow> grp m 1 = ''42''"
    by code_simp
  then obtain m1 where m1: "rmatch False createIndicatorRegex (line ?c1) = Some m1" "grp m1 1 = ''42''"
    by (cases "rmatch False createIndicatorRegex ?l1") auto
  have "case rmatch False createIndicatorRegex ?l2 of None \<Rightarrow> False
        | Some m \<Rightarrow> grp m 1 = ''42'' \<and> trim (grp m 2) = ''Bar'' \<and> trim (grp m 3) = ''2317.TW''
                    \<and> trim (grp m 4) = ''9''"
    by code_simp
  then obtain m2 where m2: "rmatch False createIndicatorRegex (line ?c2) = Some m2" "grp m2 1 = ''42''"
      "trim (grp m2 2) = ''Bar''" "trim (grp m2 3) = ''2317.TW''" "trim (grp m2 4) = ''9''"
    by (cases "rmatch False createIndicatorRegex ?l2") auto
  have s1: "rmatch False createIndicatorRegex (line ?s) = None"
    by code_simp
  have "case rmatch False startIndicatorRegex ?l3 of None \<Rightarrow> False | Some m \<Rightarrow> grp m 1 = ''42''"
    by code_simp
  then obtain ms where ms: "rmatch False startIndicatorRegex (line ?s) = Some ms" "grp ms 1 = ''42''"
    by (cases "rmatch False startIndicatorRegex ?l3") auto
  have before: "parseXSIndicatorSvcClientLog ([] @ [?c1] @ [] @ [?c2] @ []) = []"
    by code_simp
  have "\<exists>ev. parseXSIndicatorSvcClientLog ([] @ [?c1] @ [] @ [?c2] @ [] @ [?s])
               = parseXSIndicatorSvcClientLog ([] @ [?c1] @ [] @ [?c2] @ []) @ [ev]
             \<and> name ev = Some (trim (grp m2 2))
             \<and> mainSymbolId ev = Some (trim (grp m2 3))
             \<and> freq ev = Some (trim (grp m2 4))"
    by (rule last_creation_wins[where ?ts1.0 = "''10:00:00.000''" and ?ts2.0 = "''10:00:00.500''"
          and ts = "''10:00:01.000''" and ?m1.0 = m1 and ms = ms])
       (use m1 m2 ms s1 in simp_all)
  then show ?thesis
    unfolding lws before m2 by simp
qed

lemma start_event_emitted:
  assumes "timestamp s = Some ts" "ts \<noteq> []"
    and "rmatch False createIndicatorRegex (line s) = None"
    and "rmatch False startIndicatorRegex (line s) = Some ms"
  shows "\<exists>ev. parseXSIndicatorSvcClientLog (pre @ [s]) = parseXSIndicatorSvcClientLog pre @ [ev]
             \<and> startTimestamp ev = ts \<and> indicatorId ev = trim (grp ms 1)"
  using indicatorStep_start[OF assms, of "foldl indicatorStep initialIndicatorState pre"]
  by (simp add: parse_as_fold)

lemma indicatorStep_untouched:
  assumes "ownProps (createdIndicators st) k = None" "protoInfo (createdIndicators st) = None"
    and "createdId item \<noteq> Some k" "createdId item \<noteq> Some ''__proto__''"
  shows "ownProps (createdIndicators (indicatorStep st item)) k = None
       \<and> protoInfo (createdIndicators (indicatorStep st item)) = None"
  using assms
  by (auto simp: indicatorStep_def createdId_def tableSet_def Let_def split: option.splits)

lemma foldl_indicatorStep_untouched:
  assumes "ownProps (createdIndicators st) k = None" "protoInfo (createdIndicators st) = None"
    and "\<forall>item \<in> set items. createdId item \<noteq> Some k \<and> createdId item \<noteq> Some ''__proto__''"
  shows "ownProps (createdIndicators (foldl indicatorStep st items)) k = None
       \<and> protoInfo (createdIndicators (foldl indicatorStep st items)) = None"
  using assms
proof (induction items arbitrary: st)
  case Nil then show ?case by simp
next
  case (Cons a items)
  have "ownProps (createdIndicators (indicatorStep st a)) k = None
       \<and> protoInfo (createdIndicators (indicatorStep st a)) = None"
    using Cons.prems by (intro indicatorStep_untouched) simp_all
  then show ?case using Cons by simp
qed

text \<open>
  A start line whose id is none of the keys that a plain object inherits, and before
  which no creation used that id or the key \<open>__proto__\<close>, gives an event without
  name, mainSymbolId and freq.
\<close>

lemma start_without_creation_plain_id:
  assumes "timestamp s = Some ts" "ts \<noteq> []"
    and "rmatch False createIndicatorRegex (line s) = None"
    and "rmatch False startIndicatorRegex (line s) = Some ms"
    and "\<forall>item \<in> set pre. createdId item \<noteq> Some (grp ms 1) \<and> createdId item \<noteq> Some ''__proto__''"
    and "grp ms 1 \<noteq> ''__proto__''" "grp ms 1 \<noteq> ''constructor''"
    and "grp ms 1 \<notin> set objectPrototypeMethods"
  shows "\<exists>ev. parseXSIndicatorSvcClientLog (pre @ [s]) = parseXSIndicatorSvcClientLog pre @ [ev]
             \<and> name ev = None \<and> mainSymbolId ev = None \<and> freq ev = None"
proof -
  let ?st = "foldl indicatorStep initialIndicatorState pre"
  have "ownProps (createdIndicators ?st) (grp ms 1) = None \<and> protoInfo (createdIndicators ?st) = None"
    using assms(5) by (intro foldl_indicatorStep_untouched) (simp_all add: initialIndicatorState_def)
  then have "tableGet (createdIndicators ?st) (grp ms 1) = Undefined"
    using assms(6-8) by (simp add: tableGet_def objectPrototypeGet_def)
  then show ?thesis
    using indicatorStep_start[OF assms(1-4), of ?st] by (simp add: parse_as_fold)
qed

text \<open>
  Claim C7. The claim: every timestamped start line whose id has no earlier creation
  still gives an event, and that event has no name, mainSymbolId or freq. The event
  is always given (\<open>start_event_emitted\<close>), but the lookup table is a plain object:
  for the id \<open>constructor\<close>, with no creation line at all, the lookup finds the
  inherited function \<open>Object\<close>, and the event carries its name.
\<close>

theorem start_without_creation_inherited_name:
  "parseXSIndicatorSvcClientLog (linesWithTimestamps
     [''S 1 10:00:02.000 StartXSIndicator IndicatorID:constructor, TotalBar:100, FirstBarDate:20240101, TDayCount:5, AlignType:0, AlignMode:1, Sync:1, AddFakeBar:0, AutoCloseK:1''])
   = [\<lparr>startTimestamp = ''10:00:02.000'', indicatorId = ''constructor'',
       name = Some ''Object'', mainSymbolId = None, freq = None,
       totalBar = ''100'', firstBarDate = ''20240101'', tDayCount = ''5'',
       alignType = ''0'', alignMode = ''1'', sync = ''1'', addFakeBar = ''0'',
       autoCloseK = ''1''\<rparr>]"
  by code_simp

section \<open>The scalar fields of a system info snapshot\<close>

lemma monitorStep_snapshot: "currentSnapshot (monitorStep ws item) = currentSnapshot ws"
  by (simp add: monitorStep_def Let_def split: option.splits)

lemma windowStep_fields:
  "cpuModel (currentSnapshot (windowStep ws item))
     = keepLatest (cpuModel (currentSnapshot ws)) (cpuValue (sLine item)) (sTimestamp item)"
  "totalMemory (currentSnapshot (windowStep ws item))
     = keepLatest (totalMemory (currentSnapshot ws)) (memValue (sLine item)) (sTimestamp item)"
  "osVersion (currentSnapshot (windowStep ws item))
     = keepLatest (osVersion (currentSnapshot ws)) (osValue (sLine item)) (sTimestamp item)"
  "dpi (currentSnapshot (windowStep ws item))
     = keepLatest (dpi (currentSnapshot ws)) (dpiValue (sLine item)) (sTimestamp item)"
  by (simp_all add: windowStep_def Let_def monitorStep_snapshot)

lemma windowStep_other:
  "apVersion (currentSnapshot (windowStep ws item)) = apVersion (currentSnapshot ws)"
  "anchorTimestamp (currentSnapshot (windowStep ws item)) = anchorTimestamp (currentSnapshot ws)"
  by (simp_all add: windowStep_def Let_def monitorStep_snapshot)

lemma latestMatch_SomeI:
  assumes "i < length w" "f (sLine (w ! i)) = Some v" "sTimestamp (w ! i) = t"
    and "\<And>j. j < length w \<Longrightarrow> f (sLine (w ! j)) \<noteq> None \<Longrightarrow>
            timeToSeconds (sTimestamp (w ! j)) \<le> timeToSeconds t
            \<and> (i < j \<longrightarrow> timeToSeconds (sTimestamp (w ! j)) < timeToSeconds t)"
  shows "latestMatch f w (Some \<lparr>vwtValue = v, vwtTimestamp = t\<rparr>)"
proof -
  have a: "\<forall>j < length w. f (sLine (w ! j)) \<noteq> None \<longrightarrow>
              timeToSeconds (sTimestamp (w ! j)) \<le> timeToSeconds (sTimestamp (w ! i))
              \<and> (i < j \<longrightarrow> timeToSeconds (sTimestamp (w ! j)) < timeToSeconds (sTimestamp (w ! i)))"
  proof (intro allI impI)
    fix j assume "j < length w" "f (sLine (w ! j)) \<noteq> None"
    from assms(4)[OF this]
    show "timeToSeconds (sTimestamp (w ! j)) \<le> timeToSeconds (sTimestamp (w ! i))
              \<and> (i < j \<longrightarrow> timeToSeconds (sTimestamp (w ! j)) < timeToSeconds (sTimestamp (w ! i)))"
      unfolding assms(3) .
  qed
  show ?thesis
    unfolding latestMatch_def option.case valueWithTimestamp.select_convs
    using assms(1,2,3) a by blast
qed

lemma latestMatch_SomeD:
  assumes "latestMatch f w (Some r)"
  shows "\<exists>i < length w. f (sLine (w ! i)) = Some (vwtValue r) \<and> sTimestamp (w ! i) = vwtTimestamp r
           \<and> (\<forall>j < length w. f (sLine (w ! j)) \<noteq> None \<longrightarrow>
                 timeToSeconds (sTimestamp (w ! j)) \<le> timeToSeconds (vwtTimestamp r)
                 \<and> (i < j \<longrightarrow> timeToSeconds (sTimestamp (w ! j)) < timeToSeconds (vwtTimestamp r)))"
proof -
  from assms[unfolded latestMatch_def option.case]
  obtain i where i: "i < length w" "f (sLine (w ! i)) = Some (vwtValue r)"
      "sTimestamp (w ! i) = vwtTimestamp r"
      "\<forall>j < length w. f (sLine (w ! j)) \<noteq> None \<longrightarrow>
          timeToSeconds (sTimestamp (w ! j)) \<le> timeToSeconds (sTimestamp (w ! i))
          \<and> (i < j \<longrightarrow> timeToSeconds (sTimestamp (w ! j)) < timeToSeconds (sTimestamp (w ! i)))"
    by blast
  from i(4) have "\<forall>j < length w. f (sLine (w ! j)) \<noteq> None \<longrightarrow>
                 timeToSeconds (sTimestamp (w ! j)) \<le> timeToSeconds (vwtTimestamp r)
                 \<and> (i < j \<longrightarrow> timeToSeconds (sTimestamp (w ! j)) < timeToSeconds (vwtTimestamp r))"
    unfolding i(3) .
  with i(1,2,3) show ?thesis by blast
qed

lemma keepLatest_snoc:
  assumes "latestMatch f w kept"
  shows "latestMatch f (w @ [x]) (keepLatest kept (f (sLine x)) (sTimestamp x))"
proof (cases kept)
  case None
  with assms have none: "\<And>j. j < length w \<Longrightarrow> f (sLine (w ! j)) = None"
    by (simp add: latestMatch_def)
  show ?thesis
  proof (cases "f (sLine x)")
    case fn: None
    have "\<forall>i < length (w @ [x]). f (sLine ((w @ [x]) ! i)) = None"
    proof (intro allI impI)
      fix i assume "i < length (w @ [x])"
      then consider "i < length w" | "i = length w" by fastforce
      then show "f (sLine ((w @ [x]) ! i)) = None"
        by cases (simp_all add: nth_append none fn)
    qed
    then show ?thesis using None fn by (simp add: latestMatch_def keepLatest_def)
  next
    case (Some v)
    have "latestMatch f (w @ [x]) (Some \<lparr>vwtValue = v, vwtTimestamp = sTimestamp x\<rparr>)"
    proof (rule latestMatch_SomeI[where i = "length w"])
      fix j assume j: "j < length (w @ [x])" "f (sLine ((w @ [x]) ! j)) \<noteq> None"
      then consider "j < length w" | "j = length w" by fastforce
      then show "timeToSeconds (sTimestamp ((w @ [x]) ! j)) \<le> timeToSeconds (sTimestamp x)
            \<and> (length w < j \<longrightarrow> timeToSeconds (sTimestamp ((w @ [x]) ! j)) < timeToSeconds (sTimestamp x))"
      proof cases
        case 1
        with j(2) none[OF 1] show ?thesis by (simp add: nth_append)
      next
        case 2
        then show ?thesis by simp
      qed
    qed (simp_all add: Some)
    then show ?thesis using None Some by (simp add: keepLatest_def)
  qed
next
  case (Some r)
  from latestMatch_SomeD[OF assms[unfolded Some]]
  obtain i where i: "i < length w" "f (sLine (w ! i)) = Some (vwtValue r)"
      "sTimestamp (w ! i) = vwtTimestamp r"
      and mx: "\<And>j. j < length w \<Longrightarrow> f (sLine (w ! j)) \<noteq> None \<Longrightarrow>
                 timeToSeconds (sTimestamp (w ! j)) \<le> timeToSeconds (vwtTimestamp r)
                 \<and> (i < j \<longrightarrow> timeToSeconds (sTimestamp (w ! j)) < timeToSeconds (vwtTimestamp r))"
    by blast
  show ?thesis
  proof (cases "f (sLine x) \<noteq> None \<and> timeToSeconds (sTimestamp x) \<ge> timeToSeconds (vwtTimestamp r)")
    case True
    then obtain v where v: "f (sLine x) = Some v" by blast
    have "latestMatch f (w @ [x]) (Some \<lparr>vwtValue = v, vwtTimestamp = sTimestamp x\<rparr>)"
    proof (rule latestMatch_SomeI[where i = "length w"])
      fix j assume j: "j < length (w @ [x])" "f (sLine ((w @ [x]) ! j)) \<noteq> None"
      then consider "j < length w" | "j = length w" by fastforce
      then show "timeToSeconds (sTimestamp ((w @ [x]) ! j)) \<le> timeToSeconds (sTimestamp x)
            \<and> (length w < j \<longrightarrow> timeToSeconds (sTimestamp ((w @ [x]) ! j)) < timeToSeconds (sTimestamp x))"
      proof cases
        case 1
        with j(2) have "f (sLine (w ! j)) \<noteq> None" by (simp add: nth_append)
        from mx[OF 1 this] True 1 show ?thesis by (simp add: nth_append)
      next
        case 2
        then show ?thesis by simp
      qed
    qed (simp_all add: v)
    then show ?thesis using Some v True by (simp add: keepLatest_def)
  next
    case False
    have "latestMatch f (w @ [x]) (Some \<lparr>vwtValue = vwtValue r, vwtTimestamp = vwtTimestamp r\<rparr>)"
    proof (rule latestMatch_SomeI[where i = i])
      fix j assume j: "j < length (w @ [x])" "f (sLine ((w @ [x]) ! j)) \<noteq> None"
      then consider "j < length w" | "j = length w" by fastforce
      then show "timeToSeconds (sTimestamp ((w @ [x]) ! j)) \<le> timeToSeconds (vwtTimestamp r)
            \<and> (i < j \<longrightarrow> timeToSeconds (sTimestamp ((w @ [x]) ! j)) < timeToSeconds (vwtTimestamp r))"
      proof cases
        case 1
        with j(2) have "f (sLine (w ! j)) \<noteq> None" by (simp add: nth_append)
        from mx[OF 1 this] 1 show ?thesis by (simp add: nth_append)
      next
        case 2
        with j(2) have "f (sLine x) \<noteq> None" by simp
        with False have "timeToSeconds (sTimestamp x) < timeToSeconds (vwtTimestamp r)" by simp
        with 2 show ?thesis by simp
      qed
    qed (use i in \<open>simp_all add: nth_append\<close>)
    moreover have "keepLatest kept (f (sLine x)) (sTimestamp x) = Some r"
      using Some False by (cases "f (sLine x)") (simp_all add: keepLatest_def)
    ultimately show ?thesis by (cases r) simp
  qed
qed

lemma keepLatest_fold:
  "latestMatch f w (foldl (\<lambda>cur item. keepLatest cur (f (sLine item)) (sTimestamp item)) None w)"
proof (induction w rule: rev_induct)
  case Nil
  show ?case by (simp add: latestMatch_def)
next
  case (snoc x w)
  show ?case using keepLatest_snoc[OF snoc] by simp
qed

lemma foldl_windowStep_fields:
  "cpuModel (currentSnapshot (foldl windowStep ws w))
     = foldl (\<lambda>cur item. keepLatest cur (cpuValue (sLine item)) (sTimestamp item))
         (cpuModel (currentSnapshot ws)) w"
  "totalMemory (currentSnapshot (foldl windowStep ws w))
     = foldl (\<lambda>cur item. keepLatest cur (memValue (sLine item)) (sTimestamp item))
         (totalMemory (currentSnapshot ws)) w"
  "osVersion (currentSnapshot (foldl windowStep ws w))
     = foldl (\<lambda>cur item. keepLatest cur (osValue (sLine item)) (sTimestamp item))
         (osVersion (currentSnapshot ws)) w"
  "dpi (currentSnapshot (foldl windowStep ws w))
     = foldl (\<lambda>cur item. keepLatest cur (dpiValue (sLine item)) (sTimestamp item))
         (dpi (currentSnapshot ws)) w"
  by (induction w arbitrary: ws) (simp_all add: windowStep_fields)

lemma foldl_windowStep_other:
  "apVersion (currentSnapshot (foldl windowStep ws w)) = apVersion (currentSnapshot ws)"
  "anchorTimestamp (currentSnapshot (foldl windowStep ws w)) = anchorTimestamp (currentSnapshot ws)"
  by (induction w arbitrary: ws) (simp_all add: windowStep_other)

lemma anchorSnapshot_scalars:
  assumes "a < length ltv"
  shows "\<exists>snap. anchorSnapshot ltv dcs n a = Inr snap
           \<and> latestMatch cpuValue (windowLines ltv a) (cpuModel snap)
           \<and> latestMatch memValue (windowLines ltv a) (totalMemory snap)
           \<and> latestMatch osValue (windowLines ltv a) (osVersion snap)
           \<and> latestMatch dpiValue (windowLines ltv a) (dpi snap)"
  using assms keepLatest_fold[of cpuValue "windowLines ltv a"]
    keepLatest_fold[of memValue "windowLines ltv a"]
    keepLatest_fold[of osValue "windowLines ltv a"]
    keepLatest_fold[of dpiValue "windowLines ltv a"]
  by (simp add: anchorSnapshot_def Let_def foldl_windowStep_fields)

lemma findIndex_Some: "findIndex P xs = Some i \<Longrightarrow> i < length xs \<and> P (xs ! i)"
proof (induction xs arbitrary: i)
  case Nil then show ?case by simp
next
  case (Cons x xs)
  then show ?case by (auto split: if_splits option.splits)
qed

lemma findIndex_None: "findIndex P xs = None \<Longrightarrow> x \<in> set xs \<Longrightarrow> \<not> P x"
  by (induction xs) (auto split: if_splits option.splits)

lemma primaryAnchor_in_range:
  assumes "a \<in> set (primaryAnchorIndices ltv)"
  shows "a < length ltv \<and> rtest False apVersionRegex (sLine (ltv ! a))"
proof -
  from assms obtain item where "(a, item) \<in> set (enumerate 0 ltv)"
      "rtest False apVersionRegex (sLine item)"
    by (auto simp: primaryAnchorIndices_def)
  then show ?thesis by (auto simp: in_set_enumerate_eq)
qed

lemma anchors_in_range:
  assumes "anchorIndices ltv = Inr anchors" "a \<in> set anchors"
  shows "a < length ltv"
proof (cases "primaryAnchorIndices ltv = [] \<and> ltv \<noteq> []")
  case False
  with assms have "a \<in> set (primaryAnchorIndices ltv)"
    by (auto simp: anchorIndices_def Let_def)
  then show ?thesis using primaryAnchor_in_range by blast
next
  case True
  with assms have fb: "fallbackAnchorIndices ltv = Inr anchors"
    by (simp add: anchorIndices_def Let_def)
  with assms(2) obtain P where "findIndex P ltv = Some a"
    by (auto simp: fallbackAnchorIndices_def Let_def split: option.splits if_splits)
  then show ?thesis using findIndex_Some by blast
qed

lemma pushSnapshots_keeps:
  assumes "\<forall>a \<in> set as. a < length ltv"
  shows "\<exists>snaps. pushSnapshots ltv dcs n as acc = Inr (acc @ snaps)
           \<and> (\<forall>a \<in> set as. \<forall>snap. anchorSnapshot ltv dcs n a = Inr snap \<and> hasData snap
                  \<longrightarrow> snap \<in> set snaps)"
  using assms
proof (induction as arbitrary: acc)
  case Nil
  then show ?case by simp
next
  case (Cons a as)
  from Cons.prems have "a < length ltv" by simp
  then obtain snap where snap: "anchorSnapshot ltv dcs n a = Inr snap"
    using anchorSnapshot_scalars by blast
  let ?acc = "if hasData snap then acc @ [snap] else acc"
  from Cons.prems have "\<forall>a \<in> set as. a < length ltv" by simp
  from Cons.IH[OF this, of ?acc] obtain snaps where
    s: "pushSnapshots ltv dcs n as ?acc = Inr (?acc @ snaps)"
       "\<forall>a \<in> set as. \<forall>snap. anchorSnapshot ltv dcs n a = Inr snap \<and> hasData snap \<longrightarrow> snap \<in> set snaps"
    by blast
  show ?case
  proof (cases "hasData snap")
    case True
    with snap s have "pushSnapshots ltv dcs n (a # as) acc = Inr (acc @ (snap # snaps))" by simp
    moreover have "\<forall>b \<in> set (a # as). \<forall>sn. anchorSnapshot ltv dcs n b = Inr sn \<and> hasData sn
                  \<longrightarrow> sn \<in> set (snap # snaps)"
      using snap s(2) by auto
    ultimately show ?thesis by blast
  next
    case False
    with snap s have "pushSnapshots ltv dcs n (a # as) acc = Inr (acc @ snaps)" by simp
    moreover have "\<forall>b \<in> set (a # as). \<forall>sn. anchorSnapshot ltv dcs n b = Inr sn \<and> hasData sn
                  \<longrightarrow> sn \<in> set snaps"
      using snap s(2) False by auto
    ultimately show ?thesis by blast
  qed
qed

lemma parse_emits_anchor_snapshots:
  assumes "anchorIndices (linesWithValidTimestamps lws) = Inr anchors" "a \<in> set anchors"
    and "anchorSnapshot (linesWithValidTimestamps lws)
           (collectedDatacenterConnections (linesWithValidTimestamps lws)) (length anchors) a = Inr snap"
  shows "\<exists>out. parseSystemInfoForDA lws = Inr out \<and> (hasData snap \<longrightarrow> snap \<in> set out)"
proof -
  let ?ltv = "linesWithValidTimestamps lws"
  let ?dcs = "collectedDatacenterConnections ?ltv"
  have "\<forall>a \<in> set anchors. a < length ?ltv" using anchors_in_range[OF assms(1)] by blast
  from pushSnapshots_keeps[OF this, of ?dcs "length anchors" "[]"] obtain snaps where
    s: "pushSnapshots ?ltv ?dcs (length anchors) anchors [] = Inr snaps"
       "\<forall>a \<in> set anchors. \<forall>snap. anchorSnapshot ?ltv ?dcs (length anchors) a = Inr snap \<and> hasData snap
                  \<longrightarrow> snap \<in> set snaps"
    by auto
  from s(2) assms(2,3) have mem: "hasData snap \<longrightarrow> snap \<in> set snaps" by blast
  show ?thesis
  proof (cases "snaps = []")
    case True
    with mem have "\<not> hasData snap" by auto
    moreover have "\<exists>out. parseSystemInfoForDA lws = Inr out"
      using assms(1) s(1) by (simp add: parseSystemInfoForDA_def Let_def split: list.splits)
    ultimately show ?thesis by blast
  next
    case False
    then have "parseSystemInfoForDA lws = Inr snaps"
      using assms(1) s(1) by (simp add: parseSystemInfoForDA_def Let_def split: list.splits)
    with mem show ?thesis by blast
  qed
qed

lemma take_drop_map_nth:
  "m + n \<le> length xs \<Longrightarrow> take n (drop m xs) = map ((!) xs) [m ..< m + n]"
  by (intro nth_equalityI) (simp_all del: upt_Suc)

lemma windowLines_indices:
  assumes "a < length ltv"
  shows "windowLines ltv a = map ((!) ltv) [a - 50 ..< Suc a]"
proof -
  have n: "nat (max 0 (int a - 50)) = a - 50" by simp
  have le: "(a - 50) + (Suc a - (a - 50)) \<le> length ltv" using assms by simp
  have e: "(a - 50) + (Suc a - (a - 50)) = Suc a" by simp
  show ?thesis
    unfolding windowLines_def slice_def n
    using take_drop_map_nth[OF le] unfolding e by simp
qed

text \<open>
  Claim C4. For every anchor \<open>a\<close> of the system info builder: the loop body builds a
  snapshot for it, which is emitted whenever it has data; the window is the lines at
  the positions \<open>a - 50\<close> (not below 0) to \<open>a\<close> of the timestamped lines; and for
  each of CPU model, total memory, OS version and DPI the value kept is the latest
  match in the window, a tie between equal times going to the later position.
\<close>

theorem scalar_fields_latest_in_window:
  assumes "anchorIndices (linesWithValidTimestamps lws) = Inr anchors" and "a \<in> set anchors"
  shows "\<exists>snap out.
           anchorSnapshot (linesWithValidTimestamps lws)
               (collectedDatacenterConnections (linesWithValidTimestamps lws)) (length anchors) a
             = Inr snap
         \<and> parseSystemInfoForDA lws = Inr out \<and> (hasData snap \<longrightarrow> snap \<in> set out)
         \<and> windowLines (linesWithValidTimestamps lws) a
             = map ((!) (linesWithValidTimestamps lws)) [a - 50 ..< Suc a]
         \<and> latestMatch cpuValue (windowLines (linesWithValidTimestamps lws) a) (cpuModel snap)
         \<and> latestMatch memValue (windowLines (linesWithValidTimestamps lws) a) (totalMemory snap)
         \<and> latestMatch osValue (windowLines (linesWithValidTimestamps lws) a) (osVersion snap)
         \<and> latestMatch dpiValue (windowLines (linesWithValidTimestamps lws) a) (dpi snap)"
proof -
  let ?ltv = "linesWithValidTimestamps lws"
  let ?dcs = "collectedDatacenterConnections ?ltv"
  have a: "a < length ?ltv" using assms by (rule anchors_in_range)
  from anchorSnapshot_scalars[OF a, of ?dcs "length anchors"] obtain snap where
    snap: "anchorSnapshot ?ltv ?dcs (length anchors) a = Inr snap"
      "latestMatch cpuValue (windowLines ?ltv a) (cpuModel snap)"
      "latestMatch memValue (windowLines ?ltv a) (totalMemory snap)"
      "latestMatch osValue (windowLines ?ltv a) (osVersion snap)"
      "latestMatch dpiValue (windowLines ?ltv a) (dpi snap)"
    by blast
  from parse_emits_anchor_snapshots[OF assms snap(1)] obtain out where
    out: "parseSystemInfoForDA lws = Inr out" "hasData snap \<longrightarrow> snap \<in> set out"
    by blast
  show ?thesis
    using snap out windowLines_indices[OF a] by blast
qed

theorem scalar_fields_latest_in_window_witness:
  "anchorIndices (linesWithValidTimestamps cpuTieLog) = Inr [3] \<and> 3 \<in> set [3::nat]
   \<and> parseSystemInfoForDA cpuTieLog
       = Inr [\<lparr>anchorTimestamp = ''10:00:02.000'',
               apVersion = Some \<lparr>vwtValue = ''1.2.3'', vwtTimestamp = ''10:00:02.000''\<rparr>,
               cpuModel = Some \<lparr>vwtValue = ''B'', vwtTimestamp = ''10:00:01.000''\<rparr>,
               totalMemory = None, osVersion = None, dpi = None, monitors = None,
               allDatacenterConnections = []\<rparr>]
   \<and> (\<exists>snap out.
           anchorSnapshot (linesWithValidTimestamps cpuTieLog)
               (collectedDatacenterConnections (linesWithValidTimestamps cpuTieLog)) (length [3::nat]) 3
             = Inr snap
         \<and> parseSystemInfoForDA cpuTieLog = Inr out \<and> (hasData snap \<longrightarrow> snap \<in> set out)
         \<and> windowLines (linesWithValidTimestamps cpuTieLog) 3
             = map ((!) (linesWithValidTimestamps cpuTieLog)) [3 - 50 ..< Suc 3]
         \<and> latestMatch cpuValue (windowLines (linesWithValidTimestamps cpuTieLog) 3) (cpuModel snap)
         \<and> latestMatch memValue (windowLines (linesWithValidTimestamps cpuTieLog) 3) (totalMemory snap)
         \<and> latestMatch osValue (windowLines (linesWithValidTimestamps cpuTieLog) 3) (osVersion snap)
         \<and> latestMatch dpiValue (windowLines (linesWithValidTimestamps cpuTieLog) 3) (dpi snap))"
proof -
  have h1: "anchorIndices (linesWithValidTimestamps cpuTieLog) = Inr [3]"
    by code_simp
  have h2: "3 \<in> set [3::nat]" by simp
  have e: "parseSystemInfoForDA cpuTieLog
       = Inr [\<lparr>anchorTimestamp = ''10:00:02.000'',
               apVersion = Some \<lparr>vwtValue = ''1.2.3'', vwtTimestamp = ''10:00:02.000''\<rparr>,
               cpuModel = Some \<lparr>vwtValue = ''B'', vwtTimestamp = ''10:00:01.000''\<rparr>,
               totalMemory = None, osVersion = None, dpi = None, monitors = None,
               allDatacenterConnections = []\<rparr>]"
    by code_simp
  show ?thesis
    using h1 h2 e scalar_fields_latest_in_window[OF h1 h2] by blast
qed

section \<open>Monitors of a system info snapshot\<close>

text \<open>
  Claim C5. The claim: two monitor lines for id 0 in one window give exactly one
  \<open>Monitor0\<close> entry, with the later line's resolution. The code, on an AP Version
  anchor preceded by two such lines, gives two \<open>Monitor0\<close> entries, the earlier one
  first.
\<close>

theorem repeated_monitor_is_duplicated:
  "parseSystemInfoForDA (linesWithTimestamps
     [''DA 1 10:00:00.000 Monitor0 : monitor(0, 0, 1920, 1080)'',
      ''DA 1 10:00:01.000 Monitor0 : monitor(0, 0, 2560, 1440)'',
      ''DA 1 10:00:02.000 AP Version: [1.2.3]''])
   = Inr [\<lparr>anchorTimestamp = ''10:00:02.000'',
           apVersion = Some \<lparr>vwtValue = ''1.2.3'', vwtTimestamp = ''10:00:02.000''\<rparr>,
           cpuModel = None, totalMemory = None, osVersion = None, dpi = None,
           monitors = Some
             \<lparr>vwtValue =
                [\<lparr>monId = ''Monitor0'', resolution = ''1920x1080'',
                  details = ''monitor(0, 0, 1920, 1080)''\<rparr>,
                 \<lparr>monId = ''Monitor0'', resolution = ''2560x1440'',
                  details = ''monitor(0, 0, 2560, 1440)''\<rparr>],
              vwtTimestamp = ''10:00:01.000''\<rparr>,
           allDatacenterConnections = []\<rparr>]"
  by code_simp

section \<open>Time arithmetic and the order of timestamps\<close>

lemma isDigit_cases:
  "isDigit c \<Longrightarrow> c \<noteq> CHR '':'' \<and> c \<noteq> CHR ''.'' \<and> 48 \<le> (of_char c :: nat) \<and> (of_char c :: nat) \<le> 57"
  by (auto simp: isDigit_def)

lemma digitVal_le: "isDigit c \<Longrightarrow> digitVal c \<le> 9"
  using isDigit_cases[of c] unfolding digitVal_def by arith

lemma digit_less: "isDigit x \<Longrightarrow> isDigit y \<Longrightarrow> ((of_char x :: nat) < of_char y) = (digitVal x < digitVal y)"
  using isDigit_cases[of x] isDigit_cases[of y] unfolding digitVal_def by arith

lemma digit_eq: "isDigit x \<Longrightarrow> isDigit y \<Longrightarrow> (x = y) = (digitVal x = digitVal y)"
proof -
  assume d: "isDigit x" "isDigit y"
  have a: "((of_char x :: nat) = of_char y) = (x = y)" by simp
  have "((of_char x :: nat) = of_char y) = (digitVal x = digitVal y)"
    using isDigit_cases[OF d(1)] isDigit_cases[OF d(2)] unfolding digitVal_def by arith
  with a show ?thesis by blast
qed

lemma parseInt2: "isDigit a \<Longrightarrow> isDigit b \<Longrightarrow> parseInt [a, b] = Some (10 * digitVal a + digitVal b)"
  by (simp add: parseInt_def)

lemma parseInt3:
  "isDigit a \<Longrightarrow> isDigit b \<Longrightarrow> isDigit c
   \<Longrightarrow> parseInt [a, b, c] = Some (10 * (10 * digitVal a + digitVal b) + digitVal c)"
  by (simp add: parseInt_def)

lemma timeToSeconds_digits:
  assumes "isDigit h1" "isDigit h2" "isDigit m1" "isDigit m2" "isDigit s1" "isDigit s2"
    "isDigit f1" "isDigit f2" "isDigit f3"
  shows "timeToSeconds [h1, h2, CHR '':'', m1, m2, CHR '':'', s1, s2, CHR ''.'', f1, f2, f3]
     = of_nat (10 * digitVal h1 + digitVal h2) * 3600 + of_nat (10 * digitVal m1 + digitVal m2) * 60
       + of_nat (10 * digitVal s1 + digitVal s2)
       + of_nat (10 * (10 * digitVal f1 + digitVal f2) + digitVal f3) / 1000"
proof -
  let ?t = "[h1, h2, CHR '':'', m1, m2, CHR '':'', s1, s2, CHR ''.'', f1, f2, f3]"
  have t: "rtest False timeStrRegex ?t"
    using assms
    by (simp add: rtest_def rmatch_def timeStrRegex_def timeShape_def moveTo_def chEq_def
          numeral_2_eq_2 numeral_3_eq_3)
  have s: "splitOn (inClass (OneOf '':.'')) ?t = [[h1, h2], [m1, m2], [s1, s2], [f1, f2, f3]]"
    using assms[THEN isDigit_cases] by simp
  have p: "map parseInt [[h1, h2], [m1, m2], [s1, s2], [f1, f2, f3]]
     = [Some (10 * digitVal h1 + digitVal h2), Some (10 * digitVal m1 + digitVal m2),
        Some (10 * digitVal s1 + digitVal s2), Some (10 * (10 * digitVal f1 + digitVal f2) + digitVal f3)]"
    by (simp add: parseInt2 parseInt3 assms)
  have ne: "?t \<noteq> []" by simp
  show ?thesis
    unfolding timeToSeconds_def s p using t ne
    by (simp only: if_False simp_thms list.case option.case)
qed

lemma radix_less:
  fixes a a' r r' B :: nat
  assumes "r < B" "r' < B"
  shows "(a * B + r < a' * B + r') = (a < a' \<or> (a = a' \<and> r < r'))"
proof (cases a a' rule: linorder_cases)
  case less
  then have "Suc a * B \<le> a' * B" by (intro mult_le_mono1) simp
  then have "a * B + r < a' * B + r'" using assms(1) by simp
  with less show ?thesis by simp
next
  case equal
  then show ?thesis by simp
next
  case greater
  then have "Suc a' * B \<le> a * B" by (intro mult_le_mono1) simp
  then have "a' * B + r' < a * B + r" using assms(2) by simp
  with greater show ?thesis by simp
qed

lemma mixed_radix_less:
  fixes a1 a2 a3 a4 a5 a6 a7 a8 a9 b1 b2 b3 b4 b5 b6 b7 b8 b9 :: nat
  assumes a: "a2 \<le> 9" "a3 \<le> 5" "a4 \<le> 9" "a5 \<le> 5" "a6 \<le> 9" "a7 \<le> 9" "a8 \<le> 9" "a9 \<le> 9"
      and b: "b2 \<le> 9" "b3 \<le> 5" "b4 \<le> 9" "b5 \<le> 5" "b6 \<le> 9" "b7 \<le> 9" "b8 \<le> 9" "b9 \<le> 9"
  shows "(a1 * 36000000 + (a2 * 3600000 + (a3 * 600000 + (a4 * 60000 + (a5 * 10000 + (a6 * 1000
            + (a7 * 100 + (a8 * 10 + a9)))))))
          < b1 * 36000000 + (b2 * 3600000 + (b3 * 600000 + (b4 * 60000 + (b5 * 10000 + (b6 * 1000
            + (b7 * 100 + (b8 * 10 + b9))))))))
       = (a1 < b1 \<or> (a1 = b1 \<and> (a2 < b2 \<or> (a2 = b2 \<and> (a3 < b3 \<or> (a3 = b3 \<and> (a4 < b4 \<or> (a4 = b4 \<and>
           (a5 < b5 \<or> (a5 = b5 \<and> (a6 < b6 \<or> (a6 = b6 \<and> (a7 < b7 \<or> (a7 = b7 \<and> (a8 < b8 \<or> (a8 = b8 \<and>
           a9 < b9))))))))))))))))"
proof -
  have a9: "a9 < 10" and b9: "b9 < 10" using a b by simp_all
  have a8: "a8 * 10 + a9 < 100" and b8: "b8 * 10 + b9 < 100" using a b by simp_all
  have a7: "a7 * 100 + (a8 * 10 + a9) < 1000" and b7: "b7 * 100 + (b8 * 10 + b9) < 1000"
    using a b by simp_all
  have a6: "a6 * 1000 + (a7 * 100 + (a8 * 10 + a9)) < 10000"
    and b6: "b6 * 1000 + (b7 * 100 + (b8 * 10 + b9)) < 10000"
    using a b by simp_all
  have a5: "a5 * 10000 + (a6 * 1000 + (a7 * 100 + (a8 * 10 + a9))) < 60000"
    and b5: "b5 * 10000 + (b6 * 1000 + (b7 * 100 + (b8 * 10 + b9))) < 60000"
    using a b by simp_all
  have a4: "a4 * 60000 + (a5 * 10000 + (a6 * 1000 + (a7 * 100 + (a8 * 10 + a9)))) < 600000"
    and b4: "b4 * 60000 + (b5 * 10000 + (b6 * 1000 + (b7 * 100 + (b8 * 10 + b9)))) < 600000"
    using a b by simp_all
  have a3: "a3 * 600000 + (a4 * 60000 + (a5 * 10000 + (a6 * 1000 + (a7 * 100 + (a8 * 10 + a9))))) < 3600000"
    and b3: "b3 * 600000 + (b4 * 60000 + (b5 * 10000 + (b6 * 1000 + (b7 * 100 + (b8 * 10 + b9))))) < 3600000"
    using a b by simp_all
  have a2: "a2 * 3600000 + (a3 * 600000 + (a4 * 60000 + (a5 * 10000 + (a6 * 1000 + (a7 * 100 + (a8 * 10 + a9)))))) < 36000000"
    and b2: "b2 * 3600000 + (b3 * 600000 + (b4 * 60000 + (b5 * 10000 + (b6 * 1000 + (b7 * 100 + (b8 * 10 + b9)))))) < 36000000"
    using a b by simp_all
  show ?thesis
    by (simp only: radix_less[OF a2 b2] radix_less[OF a3 b3] radix_less[OF a4 b4]
          radix_less[OF a5 b5] radix_less[OF a6 b6] radix_less[OF a7 b7] radix_less[OF a8 b8]
          radix_less[OF a9 b9])
qed

lemma timeToSeconds_millis:
  assumes "isDigit h1" "isDigit h2" "isDigit m1" "isDigit m2" "isDigit s1" "isDigit s2"
    "isDigit f1" "isDigit f2" "isDigit f3"
  shows "timeToSeconds [h1, h2, CHR '':'', m1, m2, CHR '':'', s1, s2, CHR ''.'', f1, f2, f3]
     = of_nat (digitVal h1 * 36000000 + (digitVal h2 * 3600000 + (digitVal m1 * 600000
         + (digitVal m2 * 60000 + (digitVal s1 * 10000 + (digitVal s2 * 1000
         + (digitVal f1 * 100 + (digitVal f2 * 10 + digitVal f3)))))))) / 1000"
  unfolding timeToSeconds_digits[OF assms] by (simp add: field_simps)

lemma validTimestampE:
  assumes "validTimestamp t"
  obtains h1 h2 m1 m2 s1 s2 f1 f2 f3 where
    "t = [h1, h2, CHR '':'', m1, m2, CHR '':'', s1, s2, CHR ''.'', f1, f2, f3]"
    "isDigit h1" "isDigit h2" "isDigit m1" "isDigit m2" "isDigit s1" "isDigit s2"
    "isDigit f1" "isDigit f2" "isDigit f3"
    "10 * digitVal m1 + digitVal m2 < 60" "10 * digitVal s1 + digitVal s2 < 60"
  using assms by (elim validTimestamp.elims(2)) simp_all

lemma lexLess_digits:
  assumes "isDigit h1" "isDigit h2" "isDigit m1" "isDigit m2" "isDigit s1" "isDigit s2"
    "isDigit f1" "isDigit f2" "isDigit f3"
    and "isDigit h1'" "isDigit h2'" "isDigit m1'" "isDigit m2'" "isDigit s1'" "isDigit s2'"
    "isDigit f1'" "isDigit f2'" "isDigit f3'"
  shows "lexLess [h1, h2, CHR '':'', m1, m2, CHR '':'', s1, s2, CHR ''.'', f1, f2, f3]
                 [h1', h2', CHR '':'', m1', m2', CHR '':'', s1', s2', CHR ''.'', f1', f2', f3']
     = (digitVal h1 < digitVal h1' \<or> (digitVal h1 = digitVal h1' \<and>
       (digitVal h2 < digitVal h2' \<or> (digitVal h2 = digitVal h2' \<and>
       (digitVal m1 < digitVal m1' \<or> (digitVal m1 = digitVal m1' \<and>
       (digitVal m2 < digitVal m2' \<or> (digitVal m2 = digitVal m2' \<and>
       (digitVal s1 < digitVal s1' \<or> (digitVal s1 = digitVal s1' \<and>
       (digitVal s2 < digitVal s2' \<or> (digitVal s2 = digitVal s2' \<and>
       (digitVal f1 < digitVal f1' \<or> (digitVal f1 = digitVal f1' \<and>
       (digitVal f2 < digitVal f2' \<or> (digitVal f2 = digitVal f2' \<and>
       digitVal f3 < digitVal f3'))))))))))))))))"
  by (simp only: lexLess.simps digit_less[OF assms(1) assms(10)] digit_eq[OF assms(1) assms(10)]
        digit_less[OF assms(2) assms(11)] digit_eq[OF assms(2) assms(11)]
        digit_less[OF assms(3) assms(12)] digit_eq[OF assms(3) assms(12)]
        digit_less[OF assms(4) assms(13)] digit_eq[OF assms(4) assms(13)]
        digit_less[OF assms(5) assms(14)] digit_eq[OF assms(5) assms(14)]
        digit_less[OF assms(6) assms(15)] digit_eq[OF assms(6) assms(15)]
        digit_less[OF assms(7) assms(16)] digit_eq[OF assms(7) assms(16)]
        digit_less[OF assms(8) assms(17)] digit_eq[OF assms(8) assms(17)]
        digit_less[OF assms(9) assms(18)] digit_eq[OF assms(9) assms(18)]
        less_irrefl simp_thms)

text \<open>
  Claim C8. For every two valid canonical timestamps, the seconds count of the first
  is below the seconds count of the second exactly when the first string is below the
  second in the string order.
\<close>

theorem timeToSeconds_order_is_string_order:
  assumes "validTimestamp t1" "validTimestamp t2"
  shows "(timeToSeconds t1 < timeToSeconds t2) = lexLess t1 t2"
proof -
  from assms(1) obtain h1 h2 m1 m2 s1 s2 f1 f2 f3 where
    t1: "t1 = [h1, h2, CHR '':'', m1, m2, CHR '':'', s1, s2, CHR ''.'', f1, f2, f3]"
    and d: "isDigit h1" "isDigit h2" "isDigit m1" "isDigit m2" "isDigit s1" "isDigit s2"
      "isDigit f1" "isDigit f2" "isDigit f3"
    and r: "10 * digitVal m1 + digitVal m2 < 60" "10 * digitVal s1 + digitVal s2 < 60"
    by (rule validTimestampE)
  from assms(2) obtain h1' h2' m1' m2' s1' s2' f1' f2' f3' where
    t2: "t2 = [h1', h2', CHR '':'', m1', m2', CHR '':'', s1', s2', CHR ''.'', f1', f2', f3']"
    and d': "isDigit h1'" "isDigit h2'" "isDigit m1'" "isDigit m2'" "isDigit s1'" "isDigit s2'"
      "isDigit f1'" "isDigit f2'" "isDigit f3'"
    and r': "10 * digitVal m1' + digitVal m2' < 60" "10 * digitVal s1' + digitVal s2' < 60"
    by (rule validTimestampE)
  note le = d[THEN digitVal_le] and le' = d'[THEN digitVal_le]
  have m5: "digitVal m1 \<le> 5" "digitVal s1 \<le> 5" "digitVal m1' \<le> 5" "digitVal s1' \<le> 5"
    using r r' by simp_all
  have "(timeToSeconds t1 < timeToSeconds t2)
      = (digitVal h1 * 36000000 + (digitVal h2 * 3600000 + (digitVal m1 * 600000
         + (digitVal m2 * 60000 + (digitVal s1 * 10000 + (digitVal s2 * 1000
         + (digitVal f1 * 100 + (digitVal f2 * 10 + digitVal f3)))))))
       < digitVal h1' * 36000000 + (digitVal h2' * 3600000 + (digitVal m1' * 600000
         + (digitVal m2' * 60000 + (digitVal s1' * 10000 + (digitVal s2' * 1000
         + (digitVal f1' * 100 + (digitVal f2' * 10 + digitVal f3'))))))))"
    unfolding t1 t2 timeToSeconds_millis[OF d] timeToSeconds_millis[OF d']
    by (simp only: divide_less_cancel of_nat_less_iff) simp
  also have "\<dots> = lexLess t1 t2"
    unfolding t1 t2 lexLess_digits[OF d d']
    by (rule mixed_radix_less) (use le le' m5 in simp_all)
  finally show ?thesis .
qed

theorem timeToSeconds_order_is_string_order_witness:
  "validTimestamp ''09:59:59.999'' \<and> validTimestamp ''10:00:00.000''
   \<and> (timeToSeconds ''09:59:59.999'' < timeToSeconds ''10:00:00.000'')
   \<and> lexLess ''09:59:59.999'' ''10:00:00.000''"
proof -
  have v: "validTimestamp ''09:59:59.999''" "validTimestamp ''10:00:00.000''"
    by code_simp+
  have l: "lexLess ''09:59:59.999'' ''10:00:00.000''" by code_simp
  show ?thesis
    using v l timeToSeconds_order_is_string_order[OF v] by simp
qed

text \<open>The bound on minutes and seconds is needed: the format test of \<open>timeToSeconds\<close>
  asks for digits only, and two strings of that shape can have equal seconds counts.\<close>

lemma digits_alone_do_not_order:
  "timeToSeconds ''00:60:00.000'' = timeToSeconds ''01:00:00.000''
   \<and> lexLess ''00:60:00.000'' ''01:00:00.000''"
  by code_simp

section \<open>What a match of a pattern says about the line\<close>

lemma litStep_consumes:
  "litStep ci w pre rest = Some (pre', rest')
   \<Longrightarrow> \<exists>u. rest = u @ rest' \<and> length u = length w \<and> (ci \<longrightarrow> map canonicalize u = map canonicalize w)"
proof (induction w arbitrary: pre rest)
  case Nil
  then show ?case by simp
next
  case (Cons a w)
  show ?case
  proof (cases rest)
    case Nil
    with Cons.prems show ?thesis by simp
  next
    case (Cons x xs)
    with Cons.prems have e: "chEq ci a x" and s: "litStep ci w (x # pre) xs = Some (pre', rest')"
      by (auto split: if_splits)
    from Cons.IH[OF s] obtain u where
      u: "xs = u @ rest'" "length u = length w" "ci \<longrightarrow> map canonicalize u = map canonicalize w"
      by blast
    have "rest = (x # u) @ rest'" using Cons u by simp
    moreover have "length (x # u) = length (a # w)" using u by simp
    moreover have "ci \<longrightarrow> map canonicalize (x # u) = map canonicalize (a # w)"
      using u e by (auto simp: chEq_def)
    ultimately show ?thesis by blast
  qed
qed

lemma repStep_consumes:
  "repStep n c pre rest = Some (pre', rest') \<Longrightarrow> \<exists>u. rest = u @ rest'"
proof (induction n arbitrary: pre rest)
  case 0
  then show ?case by simp
next
  case (Suc n)
  show ?case
  proof (cases rest)
    case Nil
    with Suc.prems show ?thesis by simp
  next
    case (Cons x xs)
    with Suc.prems have "repStep n c (x # pre) xs = Some (pre', rest')" by (auto split: if_splits)
    from Suc.IH[OF this] obtain u where "xs = u @ rest'" by blast
    then have "rest = (x # u) @ rest'" using Cons by simp
    then show ?thesis by blast
  qed
qed

lemma starSplits_consumes:
  "(p, r) \<in> set (starSplits c pre rest) \<Longrightarrow> \<exists>u. rest = u @ r \<and> (\<forall>x \<in> set u. inClass c x)"
proof (induction rest arbitrary: pre)
  case Nil
  then show ?case by simp
next
  case (Cons x xs)
  show ?case
  proof (cases "(p, r) = (pre, x # xs)")
    case True
    then have "x # xs = [] @ r \<and> (\<forall>y \<in> set []. inClass c y)" by simp
    then show ?thesis by blast
  next
    case False
    with Cons.prems have cx: "inClass c x" and "(p, r) \<in> set (starSplits c (x # pre) xs)"
      by (auto split: if_splits)
    from Cons.IH[OF this(2)] obtain u where "xs = u @ r" "\<forall>y \<in> set u. inClass c y" by blast
    with cx have "x # xs = (x # u) @ r \<and> (\<forall>y \<in> set (x # u). inClass c y)" by simp
    then show ?thesis by blast
  qed
qed

lemma plusSplits_consumes:
  assumes "(p, r) \<in> set (plusSplits c pre rest)"
  shows "\<exists>u. rest = u @ r \<and> u \<noteq> [] \<and> (\<forall>x \<in> set u. inClass c x)"
proof (cases rest)
  case Nil
  with assms show ?thesis by simp
next
  case (Cons x xs)
  with assms have cx: "inClass c x" and "(p, r) \<in> set (starSplits c (x # pre) xs)"
    by (auto split: if_splits)
  from starSplits_consumes[OF this(2)] obtain u where "xs = u @ r" "\<forall>y \<in> set u. inClass c y"
    by blast
  with cx Cons have "rest = (x # u) @ r \<and> x # u \<noteq> [] \<and> (\<forall>y \<in> set (x # u). inClass c y)" by simp
  then show ?thesis by blast
qed

lemma steps_Lit:
  assumes "s' \<in> set (steps ci (Lit w) s)"
  shows "\<exists>u. ahead s = u @ ahead s' \<and> length u = length w \<and> (ci \<longrightarrow> map canonicalize u = map canonicalize w)"
proof (cases "litStep ci w (passed s) (ahead s)")
  case None
  with assms show ?thesis by simp
next
  case (Some p)
  with assms have "s' = moveTo s p" by simp
  with Some have "litStep ci w (passed s) (ahead s) = Some (fst p, ahead s')" by (simp add: moveTo_def)
  then show ?thesis by (rule litStep_consumes)
qed

lemma steps_Star:
  assumes "s' \<in> set (steps ci (Star c) s)"
  shows "\<exists>u. ahead s = u @ ahead s' \<and> (\<forall>x \<in> set u. inClass c x)"
proof -
  from assms obtain p where "p \<in> set (starSplits c (passed s) (ahead s))" "s' = moveTo s p" by auto
  then have "(fst p, ahead s') \<in> set (starSplits c (passed s) (ahead s))" by (simp add: moveTo_def)
  then show ?thesis by (rule starSplits_consumes)
qed

lemma steps_Plus:
  assumes "s' \<in> set (steps ci (Plus c) s)"
  shows "\<exists>u. ahead s = u @ ahead s' \<and> u \<noteq> [] \<and> (\<forall>x \<in> set u. inClass c x)"
proof -
  from assms obtain p where "p \<in> set (plusSplits c (passed s) (ahead s))" "s' = moveTo s p" by auto
  then have "(fst p, ahead s') \<in> set (plusSplits c (passed s) (ahead s))" by (simp add: moveTo_def)
  then show ?thesis by (rule plusSplits_consumes)
qed

lemma steps_Grp:
  assumes "s' \<in> set (steps ci (Grp i r) s)"
  shows "\<exists>s'' \<in> set (steps ci r s). ahead s' = ahead s''"
  using assms by auto

lemma steps_Seq:
  "s' \<in> set (steps ci (Seq a b) s) \<Longrightarrow> \<exists>s1 \<in> set (steps ci a s). s' \<in> set (steps ci b s1)"
  by auto

lemma steps_repStep:
  assumes "s' \<in> set (case repStep n c (passed s) (ahead s) of None \<Rightarrow> [] | Some p \<Rightarrow> [moveTo s p])"
  shows "\<exists>u. ahead s = u @ ahead s'"
proof (cases "repStep n c (passed s) (ahead s)")
  case None
  with assms show ?thesis by simp
next
  case (Some p)
  with assms have "s' = moveTo s p" by simp
  with Some have "repStep n c (passed s) (ahead s) = Some (fst p, ahead s')" by (simp add: moveTo_def)
  then show ?thesis by (rule repStep_consumes)
qed

lemma steps_suffix:
  "s' \<in> set (steps ci r s) \<Longrightarrow> \<exists>u. ahead s = u @ ahead s'"
proof (induction r arbitrary: s s')
  case (Lit w)
  then show ?case using steps_Lit by blast
next
  case (Cls c)
  then have "s' \<in> set (case repStep 1 c (passed s) (ahead s) of None \<Rightarrow> [] | Some p \<Rightarrow> [moveTo s p])"
    by (simp only: steps.simps)
  then show ?case by (rule steps_repStep)
next
  case (Star c)
  then show ?case using steps_Star by blast
next
  case (Plus c)
  then show ?case using steps_Plus by blast
next
  case (Rep n c)
  then have "s' \<in> set (case repStep n c (passed s) (ahead s) of None \<Rightarrow> [] | Some p \<Rightarrow> [moveTo s p])"
    by (simp only: steps.simps)
  then show ?case by (rule steps_repStep)
next
  case (Opt r)
  then consider "s' \<in> set (steps ci r s)" | "s' = s" by auto
  then show ?case
  proof cases
    case 1 then show ?thesis by (rule Opt.IH)
  next
    case 2 then show ?thesis by simp
  qed
next
  case (Grp i r)
  from steps_Grp[OF Grp.prems] obtain s'' where "s'' \<in> set (steps ci r s)" "ahead s' = ahead s''"
    by blast
  with Grp.IH[of s'' s] show ?case by simp
next
  case (Seq a b)
  from steps_Seq[OF Seq.prems] obtain s1 where "s1 \<in> set (steps ci a s)" "s' \<in> set (steps ci b s1)"
    by blast
  with Seq.IH(1)[of s1 s] Seq.IH(2)[of s' s1] obtain u v where "ahead s = u @ ahead s1" "ahead s1 = v @ ahead s'"
    by blast
  then have "ahead s = (u @ v) @ ahead s'" by simp
  then show ?case by blast
next
  case Bol
  then show ?case by (auto split: if_splits)
next
  case Eol
  then show ?case by (auto split: if_splits)
next
  case WordB
  then show ?case by (auto split: if_splits)
qed

lemma searchFrom_start:
  "searchFrom ci r pre rest = Some m
   \<Longrightarrow> \<exists>x suf pre'. rest = x @ suf \<and> m \<in> set (steps ci r \<lparr>passed = pre', ahead = suf, caps = []\<rparr>)"
proof (induction rest arbitrary: pre)
  case Nil
  then have "m \<in> set (steps ci r \<lparr>passed = pre, ahead = [], caps = []\<rparr>)"
    by (auto split: list.splits)
  then show ?case by blast
next
  case (Cons c cs)
  show ?case
  proof (cases "steps ci r \<lparr>passed = pre, ahead = c # cs, caps = []\<rparr>")
    case Nil
    with Cons.prems have "searchFrom ci r (c # pre) cs = Some m" by simp
    from Cons.IH[OF this] obtain x suf pre' where
      "cs = x @ suf" "m \<in> set (steps ci r \<lparr>passed = pre', ahead = suf, caps = []\<rparr>)" by blast
    then have "c # cs = (c # x) @ suf \<and> m \<in> set (steps ci r \<lparr>passed = pre', ahead = suf, caps = []\<rparr>)"
      by simp
    then show ?thesis by blast
  next
    case (Cons s ss)
    with Cons.prems have "m \<in> set (steps ci r \<lparr>passed = pre, ahead = c # cs, caps = []\<rparr>)"
      by simp
    then have "c # cs = [] @ (c # cs) \<and> m \<in> set (steps ci r \<lparr>passed = pre, ahead = c # cs, caps = []\<rparr>)"
      by simp
    then show ?thesis by blast
  qed
qed

section \<open>Memory lines without a value\<close>

lemma canonicalize_other: "c \<notin> set lowerLetters \<Longrightarrow> canonicalize c = c"
proof -
  assume a: "c \<notin> set lowerLetters"
  have "length lowerLetters = length upperLetters"
    by (simp add: lowerLetters_def upperLetters_def)
  then have "(map_of (zip lowerLetters upperLetters) c = None) = (c \<notin> set lowerLetters)"
    by (rule map_of_zip_is_None)
  with a have "map_of (zip lowerLetters upperLetters) c = None" by blast
  then show ?thesis unfolding canonicalize_def by simp
qed

lemma digit_not_lower: "isDigit c \<Longrightarrow> c \<notin> set lowerLetters"
  unfolding isDigit_def lowerLetters_def by auto

lemma space_not_lower: "isSpace c \<Longrightarrow> c \<notin> set lowerLetters"
  unfolding isSpace_def lowerLetters_def by auto

lemma digit_canonical: "isDigit c \<Longrightarrow> canonicalize c = c"
  by (rule canonicalize_other, rule digit_not_lower)

lemma space_canonical: "isSpace c \<Longrightarrow> canonicalize c = c"
  by (rule canonicalize_other, rule space_not_lower)

lemma digit_not_space: "isDigit c \<Longrightarrow> \<not> isSpace c"
  unfolding isDigit_def isSpace_def by auto

lemma canonicalize_M: "canonicalize CHR ''M'' = CHR ''M''"
  by (rule canonicalize_other) (simp add: lowerLetters_def)

lemma letter_M_plain:
  assumes "canonicalize c = CHR ''M''"
  shows "\<not> isDigit c \<and> \<not> isSpace c"
proof (intro conjI notI)
  assume d: "isDigit c"
  with assms digit_canonical have "c = CHR ''M''" by simp
  with d show False by (simp add: isDigit_def)
next
  assume d: "isSpace c"
  with assms space_canonical have "c = CHR ''M''" by simp
  with d show False by (simp add: isSpace_def)
qed

lemma dropWhile_all: "\<forall>x \<in> set xs. P x \<Longrightarrow> dropWhile P (xs @ ys) = dropWhile P ys"
  by (induction xs) simp_all

lemma valueAfterMarker_shape:
  assumes mk: "length mk = length ''XQ Used Mem:''"
      "map canonicalize mk = map canonicalize ''XQ Used Mem:''"
    and ws: "\<forall>c \<in> set ws. isSpace c"
    and ds: "ds \<noteq> []" "\<forall>c \<in> set ds. isDigit c"
    and ws': "\<forall>c \<in> set ws'. isSpace c"
    and mb: "length mb = length ''MB''" "map canonicalize mb = map canonicalize ''MB''"
  shows "valueAfterMarker (mk @ ws @ ds @ ws' @ mb @ tail)"
proof -
  from ds obtain d ds' where dsc: "ds = d # ds'" and d: "isDigit d" by (cases ds) auto
  from mb(1) obtain a b where mbc: "mb = [a, b]"
    by (auto simp: length_Suc_conv)
  with mb(2) have "canonicalize a = canonicalize CHR ''M''" by simp
  then have a: "canonicalize a = CHR ''M''" by (simp only: canonicalize_M)
  have na: "\<not> isDigit a" "\<not> isSpace a" using letter_M_plain[OF a] by simp_all
  have p1: "ciPrefix ''XQ Used Mem:'' (mk @ ws @ ds @ ws' @ mb @ tail)"
    unfolding ciPrefix_def using mk by simp
  have r0: "drop (length ''XQ Used Mem:'') (mk @ ws @ ds @ ws' @ mb @ tail) = ws @ ds @ ws' @ mb @ tail"
    using mk(1) by simp
  have r1: "dropWhile isSpace (ws @ ds @ ws' @ mb @ tail) = ds @ ws' @ mb @ tail"
    unfolding dropWhile_all[OF ws] using dsc digit_not_space[OF d] by simp
  have t1: "takeWhile isDigit (ds @ ws' @ mb @ tail) \<noteq> []"
    using dsc d by simp
  have r2a: "dropWhile isDigit (ds @ ws' @ mb @ tail) = ws' @ mb @ tail"
  proof -
    have "dropWhile isDigit (ds @ ws' @ mb @ tail) = dropWhile isDigit (ws' @ mb @ tail)"
      by (rule dropWhile_all[OF ds(2)])
    also have "\<dots> = ws' @ mb @ tail"
    proof (cases ws')
      case Nil
      then show ?thesis using mbc na by simp
    next
      case (Cons w rest)
      with ws' have "isSpace w" by simp
      then have "\<not> isDigit w" using digit_not_space by blast
      with Cons show ?thesis by simp
    qed
    finally show ?thesis .
  qed
  have r2: "dropWhile isSpace (ws' @ mb @ tail) = mb @ tail"
    unfolding dropWhile_all[OF ws'] using mbc na by simp
  have p2: "ciPrefix ''MB'' (mb @ tail)"
    unfolding ciPrefix_def using mb by simp
  show ?thesis
    unfolding valueAfterMarker_def Let_def r0 r1 r2a r2
    using p1 t1 p2 by simp
qed

lemma valueAfterMarker_Nil: "\<not> valueAfterMarker []"
  by (simp add: valueAfterMarker_def ciPrefix_def)

lemma mwv_Cons: "markerWithValue (a # x) = (valueAfterMarker (a # x) \<or> markerWithValue x)"
  by (rule markerWithValue.simps(2))

lemma markerWithValue_self: "valueAfterMarker y \<Longrightarrow> markerWithValue y"
proof (cases y)
  case Nil
  assume "valueAfterMarker y"
  with Nil valueAfterMarker_Nil show ?thesis by blast
next
  case (Cons c cs)
  assume "valueAfterMarker y"
  then show ?thesis unfolding Cons mwv_Cons by (rule disjI1)
qed

lemma markerWithValue_append: "valueAfterMarker y \<Longrightarrow> markerWithValue (x @ y)"
proof (induction x)
  case Nil
  then show ?case unfolding append_Nil by (rule markerWithValue_self)
next
  case (Cons a x)
  from Cons.IH[OF Cons.prems] show ?case unfolding append_Cons mwv_Cons by (rule disjI2)
qed

lemma memoryRegex_unfold:
  "memoryRegex = Seq (Grp 1 (cat timeShape)) (Seq (Star AnyChar) (Seq (Lit ''XQ Used Mem:'')
     (Seq (Star Space) (Seq (Grp 2 (Plus Digit)) (Seq (Star Space) (Lit ''MB''))))))"
  by (simp add: memoryRegex_def)

lemma memoryRegex_match_has_value:
  assumes "rmatch True memoryRegex l = Some m"
  shows "markerWithValue l"
proof -
  from assms have "searchFrom True memoryRegex [] l = Some m" by (simp add: rmatch_def)
  from searchFrom_start[OF this] obtain x suf pre' where
    l: "l = x @ suf"
    and m: "m \<in> set (steps True memoryRegex \<lparr>passed = pre', ahead = suf, caps = []\<rparr>)"
    by blast
  let ?s0 = "\<lparr>passed = pre', ahead = suf, caps = []\<rparr>"
  from m[unfolded memoryRegex_unfold] steps_Seq obtain s1 where
    s1: "s1 \<in> set (steps True (Grp 1 (cat timeShape)) ?s0)"
    and m1: "m \<in> set (steps True (Seq (Star AnyChar) (Seq (Lit ''XQ Used Mem:'')
       (Seq (Star Space) (Seq (Grp 2 (Plus Digit)) (Seq (Star Space) (Lit ''MB'')))))) s1)"
    by blast
  from steps_Seq[OF m1] obtain s2 where
    s2: "s2 \<in> set (steps True (Star AnyChar) s1)"
    and m2: "m \<in> set (steps True (Seq (Lit ''XQ Used Mem:'')
       (Seq (Star Space) (Seq (Grp 2 (Plus Digit)) (Seq (Star Space) (Lit ''MB''))))) s2)"
    by blast
  from steps_Seq[OF m2] obtain s3 where
    s3: "s3 \<in> set (steps True (Lit ''XQ Used Mem:'') s2)"
    and m3: "m \<in> set (steps True (Seq (Star Space) (Seq (Grp 2 (Plus Digit))
       (Seq (Star Space) (Lit ''MB'')))) s3)"
    by blast
  from steps_Seq[OF m3] obtain s4 where
    s4: "s4 \<in> set (steps True (Star Space) s3)"
    and m4: "m \<in> set (steps True (Seq (Grp 2 (Plus Digit)) (Seq (Star Space) (Lit ''MB''))) s4)"
    by blast
  from steps_Seq[OF m4] obtain s5 where
    s5: "s5 \<in> set (steps True (Grp 2 (Plus Digit)) s4)"
    and m5: "m \<in> set (steps True (Seq (Star Space) (Lit ''MB'')) s5)"
    by blast
  from steps_Seq[OF m5] obtain s6 where
    s6: "s6 \<in> set (steps True (Star Space) s5)"
    and m6: "m \<in> set (steps True (Lit ''MB'') s6)"
    by blast
  from steps_suffix[OF s1] obtain u1 where u1: "suf = u1 @ ahead s1" by auto
  from steps_suffix[OF s2] obtain u2 where u2: "ahead s1 = u2 @ ahead s2" by blast
  from steps_Lit[OF s3] obtain mk where mk: "ahead s2 = mk @ ahead s3"
      "length mk = length ''XQ Used Mem:''" "map canonicalize mk = map canonicalize ''XQ Used Mem:''"
    by blast
  from steps_Star[OF s4] obtain ws where ws: "ahead s3 = ws @ ahead s4" "\<forall>c \<in> set ws. isSpace c"
    by auto
  from steps_Grp[OF s5] obtain s5' where s5': "s5' \<in> set (steps True (Plus Digit) s4)"
      "ahead s5 = ahead s5'"
    by blast
  from steps_Plus[OF s5'(1)] s5'(2) obtain ds where ds: "ahead s4 = ds @ ahead s5" "ds \<noteq> []"
      "\<forall>c \<in> set ds. isDigit c"
    by auto
  from steps_Star[OF s6] obtain ws' where ws': "ahead s5 = ws' @ ahead s6" "\<forall>c \<in> set ws'. isSpace c"
    by auto
  from steps_Lit[OF m6] obtain mb where mb: "ahead s6 = mb @ ahead m"
      "length mb = length ''MB''" "map canonicalize mb = map canonicalize ''MB''"
    by blast
  have "l = (x @ u1 @ u2) @ (mk @ ws @ ds @ ws' @ mb @ ahead m)"
    using l u1 u2 mk(1) ws(1) ds(1) ws'(1) mb(1) by simp
  moreover have "valueAfterMarker (mk @ ws @ ds @ ws' @ mb @ ahead m)"
    by (rule valueAfterMarker_shape[OF mk(2,3) ws(2) ds(2,3) ws'(2) mb(2,3)])
  then have "markerWithValue ((x @ u1 @ u2) @ (mk @ ws @ ds @ ws' @ mb @ ahead m))"
    by (rule markerWithValue_append)
  ultimately show ?thesis by simp
qed

lemma memoryLine_append: "memoryLine acc l = acc @ memoryLine [] l"
  by (simp add: memoryLine_def split: option.splits)

lemma parseMemoryUsage_foldl: "foldl memoryLine acc ls = acc @ parseMemoryUsage ls"
proof (induction ls arbitrary: acc)
  case Nil
  show ?case by (simp add: parseMemoryUsage_def)
next
  case (Cons l ls)
  have "foldl memoryLine acc (l # ls) = memoryLine acc l @ parseMemoryUsage ls"
    using Cons[of "memoryLine acc l"] by simp
  also have "\<dots> = acc @ memoryLine [] l @ parseMemoryUsage ls"
    using memoryLine_append[of acc l] by simp
  also have "memoryLine [] l @ parseMemoryUsage ls = parseMemoryUsage (l # ls)"
    using Cons[of "memoryLine [] l"] by (simp add: parseMemoryUsage_def)
  finally show ?case .
qed

lemma parseMemoryUsage_append:
  "parseMemoryUsage (xs @ ys) = parseMemoryUsage xs @ parseMemoryUsage ys"
  using parseMemoryUsage_foldl[of "foldl memoryLine [] xs" ys]
  by (simp add: parseMemoryUsage_def)

text \<open>
  Claim C9. For every line that contains the marker text \<open>XQ Used Mem:\<close> while no
  occurrence of the marker in it is followed by a value of the expected form, the body
  of the memory parser leaves the list of data points as it is, and the points parsed
  from a file with that line are the points of the lines before it followed by the
  points of the lines after it: the line gives no point, not even a zero one.
\<close>

theorem memory_line_without_value_is_skipped:
  assumes "includesStr l ''XQ Used Mem:''" and "\<not> markerWithValue l"
  shows "memoryLine memoryData l = memoryData
       \<and> parseMemoryUsage (before @ [l] @ after) = parseMemoryUsage before @ parseMemoryUsage after"
proof -
  from assms(2) memoryRegex_match_has_value have "rmatch True memoryRegex l = None"
    by (cases "rmatch True memoryRegex l") auto
  then have skip: "\<And>acc. memoryLine acc l = acc" by (simp add: memoryLine_def)
  then have e: "parseMemoryUsage [l] = []" by (simp add: parseMemoryUsage_def)
  have "parseMemoryUsage (before @ [l] @ after)
          = parseMemoryUsage before @ parseMemoryUsage [l] @ parseMemoryUsage after"
    by (simp only: parseMemoryUsage_append)
  then show ?thesis using skip e by simp
qed

theorem memory_line_without_value_is_skipped_witness:
  "includesStr ''DA 1 10:00:01.000 XQ Used Mem: n/a MB'' ''XQ Used Mem:''
   \<and> \<not> markerWithValue ''DA 1 10:00:01.000 XQ Used Mem: n/a MB''
   \<and> parseMemoryUsage
        [''DA 1 10:00:00.000 XQ Used Mem: 512 MB'', ''DA 1 10:00:01.000 XQ Used Mem: n/a MB'',
         ''DA 1 10:00:02.000 XQ Used Mem: 640 MB'']
      = [\<lparr>memTimestamp = ''10:00:00.000'', memoryMB = 512, originalLogTime = ''10:00:00.000''\<rparr>,
         \<lparr>memTimestamp = ''10:00:02.000'', memoryMB = 640, originalLogTime = ''10:00:02.000''\<rparr>]"
proof -
  have h: "includesStr ''DA 1 10:00:01.000 XQ Used Mem: n/a MB'' ''XQ Used Mem:''"
    "\<not> markerWithValue ''DA 1 10:00:01.000 XQ Used Mem: n/a MB''"
    by code_simp+
  have a: "parseMemoryUsage [''DA 1 10:00:00.000 XQ Used Mem: 512 MB'']
       = [\<lparr>memTimestamp = ''10:00:00.000'', memoryMB = 512, originalLogTime = ''10:00:00.000''\<rparr>]"
    by code_simp
  have b: "parseMemoryUsage [''DA 1 10:00:02.000 XQ Used Mem: 640 MB'']
       = [\<lparr>memTimestamp = ''10:00:02.000'', memoryMB = 640, originalLogTime = ''10:00:02.000''\<rparr>]"
    by code_simp
  show ?thesis
    using h a b
      memory_line_without_value_is_skipped[OF h, of "[]"
        "[''DA 1 10:00:00.000 XQ Used Mem: 512 MB'']" "[''DA 1 10:00:02.000 XQ Used Mem: 640 MB'']"]
    by simp
qed

section \<open>The AP Version of a single anchor\<close>



lemma anchorSnapshot_apVersion:
  assumes "a < length ltv"
  shows "\<exists>snap. anchorSnapshot ltv dcs n a = Inr snap
           \<and> apVersion snap
               = (case rmatch False apVersionRegex (sLine (ltv ! a)) of
                    Some m \<Rightarrow> Some \<lparr>vwtValue = grp m 1, vwtTimestamp = sTimestamp (ltv ! a)\<rparr>
                  | None \<Rightarrow> if n = 1 \<and> ltv \<noteq> [] then scanApVersion (rev ltv) else None)"
  using assms by (simp add: anchorSnapshot_def Let_def foldl_windowStep_other)

text \<open>An anchor of the primary pass is a line with an AP Version match, so its
  snapshot takes the version from the anchor line itself.\<close>

lemma primary_anchor_has_match:
  assumes "a \<in> set (primaryAnchorIndices ltv)"
  shows "a < length ltv \<and> rmatch False apVersionRegex (sLine (ltv ! a)) \<noteq> None"
  using primaryAnchor_in_range[OF assms] by (simp add: rtest_def)







lemma single_primary_anchor_own_version:
  assumes "primaryAnchorIndices ltv = [a]"
  shows "anchorIndices ltv = Inr [a]
       \<and> (\<exists>m snap. rmatch False apVersionRegex (sLine (ltv ! a)) = Some m
             \<and> anchorSnapshot ltv dcs 1 a = Inr snap
             \<and> apVersion snap = Some \<lparr>vwtValue = grp m 1, vwtTimestamp = sTimestamp (ltv ! a)\<rparr>)"
proof -
  have anchors: "anchorIndices ltv = Inr [a]"
    using assms by (simp add: anchorIndices_def Let_def)
  have "a \<in> set (primaryAnchorIndices ltv)" using assms by simp
  from primary_anchor_has_match[OF this] obtain m where
    a: "a < length ltv" and m: "rmatch False apVersionRegex (sLine (ltv ! a)) = Some m"
    by auto
  from anchorSnapshot_apVersion[OF a, of dcs 1] m obtain snap where
    "anchorSnapshot ltv dcs 1 a = Inr snap"
    "apVersion snap = Some \<lparr>vwtValue = grp m 1, vwtTimestamp = sTimestamp (ltv ! a)\<rparr>"
    by auto
  with anchors m show ?thesis by blast
qed

section \<open>The monitor list: what holds\<close>

lemma monitorStep_no_match:
  "rmatch False monitorRegex (sLine item) = None \<Longrightarrow> foundMonitors (monitorStep ws item) = foundMonitors ws"
  by (simp add: monitorStep_def)

lemma windowStep_no_monitor:
  "rmatch False monitorRegex (sLine item) = None \<Longrightarrow> foundMonitors (windowStep ws item) = foundMonitors ws"
  by (simp add: windowStep_def Let_def monitorStep_no_match)

lemma foldl_windowStep_no_monitor:
  "\<forall>item \<in> set w. rmatch False monitorRegex (sLine item) = None
   \<Longrightarrow> foundMonitors (foldl windowStep ws w) = foundMonitors ws"
  by (induction w arbitrary: ws) (simp_all add: windowStep_no_monitor)

text \<open>A snapshot in whose window no line matches the monitor pattern has no monitors
  field, and a monitors field, when there is one, is sorted by the monitor number.\<close>

lemma monitors_absent_or_sorted:
  assumes "anchorSnapshot ltv dcs n a = Inr snap"
  shows "((\<forall>item \<in> set (windowLines ltv a). rmatch False monitorRegex (sLine item) = None)
            \<longrightarrow> monitors snap = None)
       \<and> (\<forall>ms. monitors snap = Some ms \<longrightarrow> vwtValue ms \<noteq> [] \<and> sorted (map monitorNumber (vwtValue ms)))"
proof -
  let ?ws = "foldl windowStep
               \<lparr>currentSnapshot =
                  \<lparr>anchorTimestamp = sTimestamp (ltv ! a),
                   apVersion =
                     (case rmatch False apVersionRegex (sLine (ltv ! a)) of
                        Some apMatch \<Rightarrow> Some \<lparr>vwtValue = grp apMatch 1, vwtTimestamp = sTimestamp (ltv ! a)\<rparr>
                      | None \<Rightarrow> if n = 1 \<and> ltv \<noteq> [] then scanApVersion (rev ltv) else None),
                   cpuModel = None, totalMemory = None, osVersion = None, dpi = None,
                   monitors = Some \<lparr>vwtValue = [], vwtTimestamp = []\<rparr>,
                   allDatacenterConnections = dcs\<rparr>,
                foundMonitors = [], monitorsTimestamp = None\<rparr>
               (windowLines ltv a)"
  from assms have a: "a < length ltv"
    by (simp add: anchorSnapshot_def split: if_splits)
  with assms have m: "monitors snap
      = (if foundMonitors ?ws \<noteq> [] then
           Some \<lparr>vwtValue = sortMonitors (foundMonitors ?ws),
                 vwtTimestamp =
                   (case monitorsTimestamp ?ws of
                      None \<Rightarrow> anchorTimestamp (currentSnapshot ?ws)
                    | Some t \<Rightarrow> if t \<noteq> [] then t else anchorTimestamp (currentSnapshot ?ws))\<rparr>
         else None)"
    by (auto simp: anchorSnapshot_def Let_def)
  have 1: "(\<forall>item \<in> set (windowLines ltv a). rmatch False monitorRegex (sLine item) = None)
            \<longrightarrow> monitors snap = None"
    using m foldl_windowStep_no_monitor[of "windowLines ltv a"] by simp
  have 2: "\<forall>ms. monitors snap = Some ms \<longrightarrow> vwtValue ms \<noteq> [] \<and> sorted (map monitorNumber (vwtValue ms))"
  proof (intro allI impI)
    fix ms assume "monitors snap = Some ms"
    with m have ne: "foundMonitors ?ws \<noteq> []" and v: "vwtValue ms = sortMonitors (foundMonitors ?ws)"
      by (auto split: if_splits)
    have "length (vwtValue ms) = length (foundMonitors ?ws)" by (simp add: v sortMonitors_def)
    with ne have "vwtValue ms \<noteq> []" by auto
    moreover have "sorted (map monitorNumber (vwtValue ms))" by (simp add: v sortMonitors_def)
    ultimately show "vwtValue ms \<noteq> [] \<and> sorted (map monitorNumber (vwtValue ms))" by simp
  qed
  from 1 2 show ?thesis by simp
qed

end
